theory Spec2Isabelle
  imports Complex_Main "HOL-Library.Log_Nat"
begin

section \<open>Calendar dates as the program has them\<close>

text \<open>
  The program computes with \<^verbatim>\<open>datetime.date\<close> and \<^verbatim>\<open>datetime.timedelta\<close>.
  A date holds a year, a month and a day; adding a timedelta goes through the proleptic
  Gregorian ordinal (1 January of year 1 is day 1) and raises \<^verbatim>\<open>OverflowError\<close> when
  the result leaves the years 1 to 9999. The definitions below follow the arithmetic of
  the language's date type: \<^verbatim>\<open>_is_leap\<close>, \<^verbatim>\<open>_days_before_year\<close>,
  \<^verbatim>\<open>_days_in_month\<close>, \<^verbatim>\<open>_days_before_month\<close>, \<^verbatim>\<open>_ymd2ord\<close>,
  \<^verbatim>\<open>_ord2ymd\<close>, \<^verbatim>\<open>date.__add__\<close> and \<^verbatim>\<open>date.weekday\<close>.
\<close>

datatype error =
  OverflowError | InvalidGeometry | PageIndexOutOfRange | RenderFailure | LibraryError string

record date =
  year :: int
  month :: int
  day :: int

definition MINYEAR :: int where
  "MINYEAR = 1"

definition MAXYEAR :: int where
  "MAXYEAR = 9999"

definition MAXORDINAL :: int where
  "MAXORDINAL = 3652059"

definition DAYS_IN_MONTH :: "int list" where
  "DAYS_IN_MONTH = [-1, 31, 28, 31, 30, 31, 30, 31, 31, 30, 31, 30, 31]"

definition DAYS_BEFORE_MONTH :: "int list" where
  "DAYS_BEFORE_MONTH = [-1, 0, 31, 59, 90, 120, 151, 181, 212, 243, 273, 304, 334]"

definition is_leap :: "int \<Rightarrow> bool" where
  "is_leap y = (y mod 4 = 0 \<and> (y mod 100 \<noteq> 0 \<or> y mod 400 = 0))"

definition days_before_year :: "int \<Rightarrow> int" where
  "days_before_year yr = (let y = yr - 1 in y * 365 + y div 4 - y div 100 + y div 400)"

definition days_in_month :: "int \<Rightarrow> int \<Rightarrow> int" where
  "days_in_month y m = (if m = 2 \<and> is_leap y then 29 else DAYS_IN_MONTH ! nat m)"

definition days_before_month :: "int \<Rightarrow> int \<Rightarrow> int" where
  "days_before_month y m =
     DAYS_BEFORE_MONTH ! nat m + (if m > 2 \<and> is_leap y then 1 else 0)"

definition ymd2ord :: "int \<Rightarrow> int \<Rightarrow> int \<Rightarrow> int" where
  "ymd2ord y m d = days_before_year y + days_before_month y m + d"

definition DI400Y :: int where
  "DI400Y = 146097"

definition DI100Y :: int where
  "DI100Y = 36524"

definition DI4Y :: int where
  "DI4Y = 1461"

text \<open>The month search at the end of \<^verbatim>\<open>_ord2ymd\<close>: an estimate of the month from
  the offset in the year, corrected when it is one too large.\<close>

definition month_part :: "int \<Rightarrow> bool \<Rightarrow> int \<times> int" where
  "month_part n leapyear =
     (let mo = (n + 50) div 32;
          preceding = DAYS_BEFORE_MONTH ! nat mo + (if mo > 2 \<and> leapyear then 1 else 0)
      in if preceding > n
         then let mo = mo - 1;
                  preceding = preceding
                    - (DAYS_IN_MONTH ! nat mo + (if mo = 2 \<and> leapyear then 1 else 0))
              in (mo, n - preceding + 1)
         else (mo, n - preceding + 1))"

definition ord2ymd :: "int \<Rightarrow> int \<times> int \<times> int" where
  "ord2ymd n0 =
     (let n = n0 - 1;
          n400 = n div DI400Y; r1 = n mod DI400Y;
          n100 = r1 div DI100Y; r2 = r1 mod DI100Y;
          n4 = r2 div DI4Y; r3 = r2 mod DI4Y;
          n1 = r3 div 365; r4 = r3 mod 365;
          yr = n400 * 400 + 1 + (n100 * 100 + n4 * 4 + n1)
      in if n1 = 4 \<or> n100 = 4 then (yr - 1, 12, 31)
         else (case month_part r4 (n1 = 3 \<and> (n4 \<noteq> 24 \<or> n100 = 3)) of
                 (mo, d) \<Rightarrow> (yr, mo, d)))"

text \<open>The dates the constructor of \<^verbatim>\<open>date\<close> accepts.\<close>

definition valid_date :: "date \<Rightarrow> bool" where
  "valid_date d \<longleftrightarrow>
     MINYEAR \<le> year d \<and> year d \<le> MAXYEAR \<and> 1 \<le> month d \<and> month d \<le> 12 \<and>
     1 \<le> day d \<and> day d \<le> days_in_month (year d) (month d)"

definition toordinal :: "date \<Rightarrow> int" where
  "toordinal d = ymd2ord (year d) (month d) (day d)"

definition fromordinal :: "int \<Rightarrow> date" where
  "fromordinal n = (case ord2ymd n of (y, m, d) \<Rightarrow> \<lparr>year = y, month = m, day = d\<rparr>)"

text \<open>\<^verbatim>\<open>timedelta(days=n)\<close>: the number of days is limited to nine digits.\<close>

definition timedelta :: "int \<Rightarrow> error + int" where
  "timedelta days = (if \<bar>days\<bar> > 999999999 then Inl OverflowError else Inr days)"

text \<open>\<^verbatim>\<open>date + timedelta\<close>.\<close>

definition date_add :: "date \<Rightarrow> int \<Rightarrow> error + date" where
  "date_add d days =
     (let ordn = toordinal d + days
      in if 0 < ordn \<and> ordn \<le> MAXORDINAL then Inr (fromordinal ordn)
         else Inl OverflowError)"

definition weekday :: "date \<Rightarrow> int" where
  "weekday d = (toordinal d + 6) mod 7"

section \<open>Numbers and strings of the language\<close>

text \<open>
  The four band coordinates are integers (the number inputs have integer defaults); the
  column step is a float: \<^verbatim>\<open>(x1 - x0) / 7\<close>. A float is modelled by the rational it
  denotes, and every float operation is the exact operation followed by rounding to the
  nearest binary64 value, ties to even. The exponent range of binary64 is not modelled:
  the coordinates of a page image are far inside it.
\<close>

definition round_half_even :: "rat \<Rightarrow> int" where
  "round_half_even r =
     (let f = \<lfloor>r\<rfloor>; d = r - of_int f
      in if d < 1 / 2 then f else if d > 1 / 2 then f + 1
         else if even f then f else f + 1)"

text \<open>The binary exponent \<open>e\<close> of a non-zero rational: \<open>2 ^ e \<le> \<bar>x\<bar> < 2 ^ (e + 1)\<close>.\<close>

definition expo :: "rat \<Rightarrow> int" where
  "expo x =
     (if 1 \<le> \<bar>x\<bar> then int (floorlog 2 (nat \<lfloor>\<bar>x\<bar>\<rfloor>)) - 1
      else - int (floorlog 2 (nat (\<lceil>1 / \<bar>x\<bar>\<rceil> - 1))))"

definition fl :: "rat \<Rightarrow> rat" where
  "fl x = (if x = 0 then 0
           else let u = 2 powi (expo x - 52) in of_int (round_half_even (x / u)) * u)"

definition float_of_int :: "int \<Rightarrow> rat" where
  "float_of_int n = fl (of_int n)"

definition int_truediv :: "int \<Rightarrow> int \<Rightarrow> rat" where
  "int_truediv a b = fl (of_int a / of_int b)"

definition float_add :: "rat \<Rightarrow> rat \<Rightarrow> rat" where
  "float_add a b = fl (a + b)"

definition float_mul :: "rat \<Rightarrow> rat \<Rightarrow> rat" where
  "float_mul a b = fl (a * b)"

text \<open>Decimal digits of a natural number, and \<^verbatim>\<open>f"{n}"\<close> and \<^verbatim>\<open>f"{n:02d}"\<close>.\<close>

fun digits :: "nat \<Rightarrow> string" where
  "digits n = (if n < 10 then [char_of (48 + n)]
               else digits (n div 10) @ [char_of (48 + n mod 10)])"

declare digits.simps [simp del]

definition py_str :: "int \<Rightarrow> string" where
  "py_str n = (if n < 0 then CHR ''-'' # digits (nat (- n)) else digits (nat n))"

definition py_02d :: "int \<Rightarrow> string" where
  "py_02d n =
     (if n < 0 then CHR ''-'' # replicate (1 - length (digits (nat (- n)))) CHR ''0''
                     @ digits (nat (- n))
      else replicate (2 - length (digits (nat n))) CHR ''0'' @ digits (nat n))"

section \<open>The extraction run\<close>

text \<open>
  The values read from the sidebar, and what the run leaves behind: the pages it asked
  the rasteriser for, the members written to the archive and the counter. A member is
  recorded with the loop variables at the moment of the write: the page, the column, the
  date, the box given to \<^verbatim>\<open>crop\<close> and the member name.
\<close>

record settings =
  target_month :: int
  first_monday :: date
  x0 :: int
  y0 :: int
  x1 :: int
  y1 :: int
  dpi :: int

record emitted =
  e_page :: int
  e_col :: int
  e_date :: date
  e_box :: "rat \<times> rat \<times> rat \<times> rat"
  e_name :: string

record run_state =
  rendered :: "(int \<times> int) list"
  zip_f :: "emitted list"
  saved_count :: int

text \<open>
  Cropping the page image and encoding the crop as PNG are done by the imaging library,
  which is not part of the program. It is a parameter of the run: for the image of a
  page, given by the page index and the resolution, and a box, it answers \<open>None\<close> when
  crop and encoding succeed and the name of the exception otherwise. An exception stops
  the run; what the run had done until then is kept with the error.
\<close>

type_synonym imaging = "int \<times> int \<Rightarrow> rat \<times> rat \<times> rat \<times> rat \<Rightarrow> string option"

record failure =
  f_error :: error
  f_state :: run_state

text \<open>The inner loop \<^verbatim>\<open>for i in range(7)\<close>, over the list of column indices.\<close>

fun column_loop ::
  "imaging \<Rightarrow> settings \<Rightarrow> int \<Rightarrow> date \<Rightarrow> rat \<Rightarrow> int list \<Rightarrow> run_state
     \<Rightarrow> failure + run_state" where
  "column_loop lib c p_idx p_monday w_step [] s = Inr s"
| "column_loop lib c p_idx p_monday w_step (i # rest) s =
     (case timedelta i of
        Inl err \<Rightarrow> Inl \<lparr>f_error = err, f_state = s\<rparr>
      | Inr td \<Rightarrow>
         (case date_add p_monday td of
            Inl err \<Rightarrow> Inl \<lparr>f_error = err, f_state = s\<rparr>
          | Inr curr_date \<Rightarrow>
              if month curr_date \<noteq> target_month c
              then column_loop lib c p_idx p_monday w_step rest s
              else
                let d_left = float_add (float_of_int (x0 c)) (float_mul (float_of_int i) w_step);
                    d_right = (if i < 6 then float_add d_left w_step else of_int (x1 c));
                    cropped = \<lparr>e_page = p_idx, e_col = i, e_date = curr_date,
                               e_box = (d_left, of_int (y0 c), d_right, of_int (y1 c)),
                               e_name = py_str (day curr_date) @ ''.png''\<rparr>
                in (case lib (p_idx, dpi c) (e_box cropped) of
                      Some exn \<Rightarrow> Inl \<lparr>f_error = LibraryError exn, f_state = s\<rparr>
                    | None \<Rightarrow>
                        column_loop lib c p_idx p_monday w_step rest
                          (s\<lparr>zip_f := zip_f s @ [cropped],
                             saved_count := saved_count s + 1\<rparr>))))"

text \<open>The outer loop \<^verbatim>\<open>for p_idx in range(page_count)\<close>.\<close>

fun page_loop :: "imaging \<Rightarrow> settings \<Rightarrow> int list \<Rightarrow> run_state \<Rightarrow> failure + run_state" where
  "page_loop lib c [] s = Inr s"
| "page_loop lib c (p_idx # rest) s =
     (let s1 = s\<lparr>rendered := rendered s @ [(p_idx, dpi c)]\<rparr>
      in case timedelta (p_idx * 7) of
           Inl err \<Rightarrow> Inl \<lparr>f_error = err, f_state = s1\<rparr>
         | Inr td \<Rightarrow>
            (case date_add (first_monday c) td of
               Inl err \<Rightarrow> Inl \<lparr>f_error = err, f_state = s1\<rparr>
             | Inr p_monday \<Rightarrow>
                 let w_step = int_truediv (x1 c - x0 c) 7
                 in (case column_loop lib c p_idx p_monday w_step [0..6] s1 of
                       Inl f \<Rightarrow> Inl f
                     | Inr s2 \<Rightarrow> page_loop lib c rest s2)))"

definition init_state :: run_state where
  "init_state = \<lparr>rendered = [], zip_f = [], saved_count = 0\<rparr>"

definition run_split :: "imaging \<Rightarrow> settings \<Rightarrow> int \<Rightarrow> failure + run_state" where
  "run_split lib c page_count = page_loop lib c [0..page_count - 1] init_state"

text \<open>
  An instance of the library, as far as a box without area goes: \<^verbatim>\<open>Image.crop\<close>
  raises \<^verbatim>\<open>ValueError\<close> for a box whose right edge is left of its left edge or whose
  lower edge is above its upper edge; it rounds the edges to integers, and a crop
  without pixels cannot be encoded as PNG (\<^verbatim>\<open>SystemError\<close>). Every other box is
  accepted in this instance (the library's limit on the number of pixels is left out).
\<close>

definition box_rejected :: "rat \<times> rat \<times> rat \<times> rat \<Rightarrow> string option" where
  "box_rejected box =
     (case box of (left, upper, right, lower) \<Rightarrow>
        if right < left then Some ''ValueError''
        else if lower < upper then Some ''ValueError''
        else if round_half_even right = round_half_even left
                \<or> round_half_even lower = round_half_even upper then Some ''SystemError''
        else None)"

definition pillow :: imaging where
  "pillow img box = box_rejected box"

text \<open>What the page shows after the loop: a download of the archive under the name
  \<^verbatim>\<open>menu_MM.zip\<close>, or a warning when nothing was saved.\<close>

datatype outcome = Download "emitted list" string | Warning

definition report :: "settings \<Rightarrow> run_state \<Rightarrow> outcome" where
  "report c s =
     (if saved_count s > 0
      then Download (zip_f s) (''menu_'' @ py_02d (target_month c) @ ''.zip'')
      else Warning)"

text \<open>The date of a cell, as the two additions of the loops compute it.\<close>

definition cell_date :: "date \<Rightarrow> int \<Rightarrow> int \<Rightarrow> error + date" where
  "cell_date anchor p_idx i =
     (case timedelta (p_idx * 7) of
        Inl err \<Rightarrow> Inl err
      | Inr td \<Rightarrow>
         (case date_add anchor td of
            Inl err \<Rightarrow> Inl err
          | Inr p_monday \<Rightarrow>
             (case timedelta i of
                Inl err \<Rightarrow> Inl err
              | Inr td' \<Rightarrow> date_add p_monday td')))"

section \<open>What the loops compute\<close>

text \<open>
  The inner loop visits the columns in order; when every date is in range it appends one
  member for each column whose date is in the target month, and it stops with
  \<^verbatim>\<open>OverflowError\<close> when a date is out of range and with the library's exception when
  the library rejects a box. The outer loop does the same page by page. The definitions
  below name the parts of that description; the lemmas after them prove it.
\<close>

definition selected :: "settings \<Rightarrow> date \<Rightarrow> int \<Rightarrow> bool" where
  "selected c p_monday i =
     (case date_add p_monday i of Inl _ \<Rightarrow> False | Inr d \<Rightarrow> month d = target_month c)"

definition column_entry :: "settings \<Rightarrow> int \<Rightarrow> date \<Rightarrow> rat \<Rightarrow> int \<Rightarrow> emitted" where
  "column_entry c p_idx p_monday w_step i =
     (let curr_date = projr (date_add p_monday i);
          d_left = float_add (float_of_int (x0 c)) (float_mul (float_of_int i) w_step);
          d_right = (if i < 6 then float_add d_left w_step else of_int (x1 c))
      in \<lparr>e_page = p_idx, e_col = i, e_date = curr_date,
          e_box = (d_left, of_int (y0 c), d_right, of_int (y1 c)),
          e_name = py_str (day curr_date) @ ''.png''\<rparr>)"

definition columns_ok :: "date \<Rightarrow> int list \<Rightarrow> bool" where
  "columns_ok p_monday cols =
     list_all (\<lambda>i. \<bar>i\<bar> \<le> 999999999 \<and> 0 < toordinal p_monday + i
                   \<and> toordinal p_monday + i \<le> MAXORDINAL) cols"

definition page_monday :: "settings \<Rightarrow> int \<Rightarrow> date" where
  "page_monday c p_idx = fromordinal (toordinal (first_monday c) + p_idx * 7)"

definition page_ok :: "settings \<Rightarrow> int \<Rightarrow> bool" where
  "page_ok c p_idx \<longleftrightarrow>
     \<bar>p_idx * 7\<bar> \<le> 999999999 \<and> 0 < toordinal (first_monday c) + p_idx * 7
     \<and> toordinal (first_monday c) + p_idx * 7 \<le> MAXORDINAL
     \<and> columns_ok (page_monday c p_idx) [0..6]"

definition page_entries :: "settings \<Rightarrow> int \<Rightarrow> emitted list" where
  "page_entries c p_idx =
     map (column_entry c p_idx (page_monday c p_idx) (int_truediv (x1 c - x0 c) 7))
       (filter (selected c (page_monday c p_idx)) [0..6])"

definition entry_before :: "emitted \<Rightarrow> emitted \<Rightarrow> bool" where
  "entry_before a b \<longleftrightarrow> e_page a < e_page b \<or> (e_page a = e_page b \<and> e_col a < e_col b)"

definition run_result :: "settings \<Rightarrow> int \<Rightarrow> run_state" where
  "run_result c page_count =
     \<lparr>rendered = map (\<lambda>p. (p, dpi c)) [0..page_count - 1],
      zip_f = concat (map (page_entries c) [0..page_count - 1]),
      saved_count = int (length (concat (map (page_entries c) [0..page_count - 1])))\<rparr>"

definition cols_accepted :: "imaging \<Rightarrow> settings \<Rightarrow> int \<Rightarrow> date \<Rightarrow> rat \<Rightarrow> int list \<Rightarrow> bool" where
  "cols_accepted lib c p_idx p_monday w_step cols =
     list_all (\<lambda>i. selected c p_monday i \<longrightarrow>
                 lib (p_idx, dpi c) (e_box (column_entry c p_idx p_monday w_step i)) = None) cols"

definition page_accepted :: "imaging \<Rightarrow> settings \<Rightarrow> int \<Rightarrow> bool" where
  "page_accepted lib c p_idx =
     cols_accepted lib c p_idx (page_monday c p_idx) (int_truediv (x1 c - x0 c) 7) [0..6]"

definition accepted :: "imaging \<Rightarrow> settings \<Rightarrow> int \<Rightarrow> bool" where
  "accepted lib c page_count = list_all (page_accepted lib c) [0..page_count - 1]"


definition w_step_of :: "settings \<Rightarrow> rat" where
  "w_step_of c = int_truediv (x1 c - x0 c) 7"

definition d_left :: "settings \<Rightarrow> int \<Rightarrow> rat" where
  "d_left c i = float_add (float_of_int (x0 c)) (float_mul (float_of_int i) (w_step_of c))"

definition d_right :: "settings \<Rightarrow> int \<Rightarrow> rat" where
  "d_right c i = (if i < 6 then float_add (d_left c i) (w_step_of c) else of_int (x1 c))"

definition crop_box :: "settings \<Rightarrow> int \<Rightarrow> rat \<times> rat \<times> rat \<times> rat" where
  "crop_box c i = (d_left c i, of_int (y0 c), d_right c i, of_int (y1 c))"

definition band_accepted :: "settings \<Rightarrow> bool" where
  "band_accepted c = list_all (\<lambda>i. box_rejected (crop_box c i) = None) [0..6]"

definition band_scale :: "settings \<Rightarrow> rat" where
  "band_scale c = \<bar>of_int (x0 c)\<bar> + of_int (x1 c - x0 c)"

definition january_2026 :: settings where
  "january_2026 = \<lparr>target_month = 1, first_monday = \<lparr>year = 2026, month = 1, day = 5\<rparr>,
     x0 = 108, y0 = 145, x1 = 1685, y1 = 1170, dpi = 150\<rparr>"


definition march_2026 :: settings where
  "march_2026 = \<lparr>target_month = 3, first_monday = \<lparr>year = 2026, month = 1, day = 5\<rparr>,
     x0 = 108, y0 = 145, x1 = 1685, y1 = 1170, dpi = 150\<rparr>"

definition month_ok :: "int \<Rightarrow> bool \<Rightarrow> bool" where
  "month_ok n l = (case month_part n l of (m, d) \<Rightarrow>
      1 \<le> m \<and> m \<le> 12 \<and> 1 \<le> d
      \<and> d \<le> (if m = 2 \<and> l then 29 else DAYS_IN_MONTH ! nat m)
      \<and> DAYS_BEFORE_MONTH ! nat m + (if m > 2 \<and> l then 1 else 0) + d = n + 1)"

definition default_first_monday :: date where
  "default_first_monday = \<lparr>year = 2026, month = 1, day = 1\<rparr>"

definition date_max :: date where
  "date_max = \<lparr>year = 9999, month = 12, day = 31\<rparr>"


section \<open>The loops, characterised\<close>

lemma timedelta_InrD: "timedelta n = Inr t \<Longrightarrow> t = n \<and> \<bar>n\<bar> \<le> 999999999"
  by (auto simp add: timedelta_def split: if_splits)

lemma timedelta_InlD: "timedelta n = Inl e \<Longrightarrow> e = OverflowError"
  by (auto simp add: timedelta_def split: if_splits)

lemma date_add_InrD:
  "date_add d n = Inr x \<Longrightarrow>
   x = fromordinal (toordinal d + n) \<and> 0 < toordinal d + n \<and> toordinal d + n \<le> MAXORDINAL"
  by (auto simp add: date_add_def Let_def split: if_splits)

lemma date_add_InlD: "date_add d n = Inl e \<Longrightarrow> e = OverflowError"
  by (auto simp add: date_add_def Let_def split: if_splits)

lemma column_loop_step:
  assumes "\<bar>i\<bar> \<le> 999999999" and "date_add pm i = Inr cd"
  shows "column_loop lib c p pm w (i # rest) s =
     (if month cd \<noteq> target_month c then column_loop lib c p pm w rest s
      else case lib (p, dpi c) (e_box (column_entry c p pm w i)) of
             Some exn \<Rightarrow> Inl \<lparr>f_error = LibraryError exn, f_state = s\<rparr>
           | None \<Rightarrow> column_loop lib c p pm w rest
                (s\<lparr>zip_f := zip_f s @ [column_entry c p pm w i],
                   saved_count := saved_count s + 1\<rparr>))"
proof -
  have td: "timedelta i = Inr i" using assms(1) by (simp add: timedelta_def)
  show ?thesis
    unfolding column_loop.simps td sum.case assms(2) column_entry_def Let_def sum.sel
    by (simp split del: if_split cong: if_cong)
qed

lemma column_loop_stop:
  assumes "\<not> (\<bar>i\<bar> \<le> 999999999 \<and> 0 < toordinal pm + i \<and> toordinal pm + i \<le> MAXORDINAL)"
  shows "column_loop lib c p pm w (i # rest) s = Inl \<lparr>f_error = OverflowError, f_state = s\<rparr>"
  using assms by (auto simp add: timedelta_def date_add_def Let_def)

lemma column_loop_Inr:
  "columns_ok pm cols \<Longrightarrow> cols_accepted lib c p pm w cols \<Longrightarrow>
   column_loop lib c p pm w cols s =
     Inr (s\<lparr>zip_f := zip_f s @ map (column_entry c p pm w) (filter (selected c pm) cols),
            saved_count := saved_count s + int (length (filter (selected c pm) cols))\<rparr>)"
proof (induction cols arbitrary: s)
  case Nil
  show ?case by simp
next
  case (Cons i rest)
  from Cons.prems have ok: "columns_ok pm rest"
    and i: "\<bar>i\<bar> \<le> 999999999" "0 < toordinal pm + i" "toordinal pm + i \<le> MAXORDINAL"
    by (simp_all add: columns_ok_def)
  from Cons.prems have acc: "cols_accepted lib c p pm w rest"
    and lib: "selected c pm i \<Longrightarrow> lib (p, dpi c) (e_box (column_entry c p pm w i)) = None"
    by (simp_all add: cols_accepted_def)
  have da: "date_add pm i = Inr (fromordinal (toordinal pm + i))"
    using i by (simp add: date_add_def)
  note step = column_loop_step[OF i(1) da]
  show ?case
  proof (cases "month (fromordinal (toordinal pm + i)) = target_month c")
    case True
    then have sel: "selected c pm i" by (simp add: selected_def da)
    show ?thesis
      unfolding step using True sel lib[OF sel] by (simp add: Cons.IH[OF ok acc])
  next
    case False
    then have sel: "\<not> selected c pm i" by (simp add: selected_def da)
    show ?thesis
      unfolding step using False sel by (simp add: Cons.IH[OF ok acc])
  qed
qed

lemma column_loop_InrD:
  "column_loop lib c p pm w cols s = Inr s' \<Longrightarrow>
   columns_ok pm cols \<and> cols_accepted lib c p pm w cols"
proof (induction cols arbitrary: s)
  case Nil
  show ?case by (simp add: columns_ok_def cols_accepted_def)
next
  case (Cons i rest)
  have i: "\<bar>i\<bar> \<le> 999999999 \<and> 0 < toordinal pm + i \<and> toordinal pm + i \<le> MAXORDINAL"
  proof (rule ccontr)
    assume "\<not> ?thesis"
    from column_loop_stop[OF this] Cons.prems show False by simp
  qed
  then have da: "date_add pm i = Inr (fromordinal (toordinal pm + i))"
    by (simp add: date_add_def)
  note step = column_loop_step[OF i[THEN conjunct1] da]
  show ?case
  proof (cases "month (fromordinal (toordinal pm + i)) = target_month c")
    case True
    then have sel: "selected c pm i" by (simp add: selected_def da)
    show ?thesis
    proof (cases "lib (p, dpi c) (e_box (column_entry c p pm w i))")
      case (Some exn)
      with Cons.prems True show ?thesis unfolding step by simp
    next
      case None
      with Cons.prems True
      have "column_loop lib c p pm w rest
              (s\<lparr>zip_f := zip_f s @ [column_entry c p pm w i],
                 saved_count := saved_count s + 1\<rparr>) = Inr s'"
        unfolding step by simp
      from Cons.IH[OF this] i None show ?thesis
        by (simp add: columns_ok_def cols_accepted_def)
    qed
  next
    case False
    then have sel: "\<not> selected c pm i" by (simp add: selected_def da)
    from Cons.prems False have "column_loop lib c p pm w rest s = Inr s'"
      unfolding step by simp
    from Cons.IH[OF this] i sel show ?thesis
      by (simp add: columns_ok_def cols_accepted_def)
  qed
qed


lemma page_loop_step:
  assumes "\<bar>p * 7\<bar> \<le> 999999999" "0 < toordinal (first_monday c) + p * 7"
    "toordinal (first_monday c) + p * 7 \<le> MAXORDINAL"
  shows "page_loop lib c (p # rest) s =
     (case column_loop lib c p (page_monday c p) (int_truediv (x1 c - x0 c) 7) [0..6]
             (s\<lparr>rendered := rendered s @ [(p, dpi c)]\<rparr>) of
        Inl f \<Rightarrow> Inl f
      | Inr s2 \<Rightarrow> page_loop lib c rest s2)"
proof -
  have td: "timedelta (p * 7) = Inr (p * 7)" using assms by (simp add: timedelta_def)
  have da: "date_add (first_monday c) (p * 7) = Inr (page_monday c p)"
    using assms by (simp add: date_add_def page_monday_def)
  show ?thesis
    unfolding page_loop.simps Let_def td da sum.case ..
qed

lemma page_loop_stop:
  assumes "\<not> (\<bar>p * 7\<bar> \<le> 999999999 \<and> 0 < toordinal (first_monday c) + p * 7
             \<and> toordinal (first_monday c) + p * 7 \<le> MAXORDINAL)"
  shows "page_loop lib c (p # rest) s
           = Inl \<lparr>f_error = OverflowError, f_state = s\<lparr>rendered := rendered s @ [(p, dpi c)]\<rparr>\<rparr>"
  using assms by (auto simp add: timedelta_def date_add_def Let_def)

lemma page_loop_Inr:
  "list_all (page_ok c) ps \<Longrightarrow> list_all (page_accepted lib c) ps \<Longrightarrow>
   page_loop lib c ps s =
     Inr (s\<lparr>rendered := rendered s @ map (\<lambda>p. (p, dpi c)) ps,
            zip_f := zip_f s @ concat (map (page_entries c) ps),
            saved_count := saved_count s + int (length (concat (map (page_entries c) ps)))\<rparr>)"
proof (induction ps arbitrary: s)
  case Nil
  show ?case by simp
next
  case (Cons p rest)
  from Cons.prems have rest: "list_all (page_ok c) rest" "list_all (page_accepted lib c) rest"
    and p: "page_ok c p" and a: "page_accepted lib c p" by simp_all
  from p have b: "\<bar>p * 7\<bar> \<le> 999999999" "0 < toordinal (first_monday c) + p * 7"
    "toordinal (first_monday c) + p * 7 \<le> MAXORDINAL"
    and cols: "columns_ok (page_monday c p) [0..6]" by (simp_all add: page_ok_def)
  from a have acc: "cols_accepted lib c p (page_monday c p) (int_truediv (x1 c - x0 c) 7) [0..6]"
    by (simp add: page_accepted_def)
  have pe: "map (column_entry c p (page_monday c p) (int_truediv (x1 c - x0 c) 7))
              (filter (selected c (page_monday c p)) [0..6]) = page_entries c p"
    by (simp add: page_entries_def)
  show ?case
    unfolding page_loop_step[OF b] column_loop_Inr[OF cols acc] pe sum.case
      Cons.IH[OF rest]
    by (simp add: pe[symmetric])
qed

lemma page_loop_InrD:
  "page_loop lib c ps s = Inr s' \<Longrightarrow>
   list_all (page_ok c) ps \<and> list_all (page_accepted lib c) ps"
proof (induction ps arbitrary: s)
  case Nil
  show ?case by simp
next
  case (Cons p rest)
  have b: "\<bar>p * 7\<bar> \<le> 999999999 \<and> 0 < toordinal (first_monday c) + p * 7
           \<and> toordinal (first_monday c) + p * 7 \<le> MAXORDINAL"
  proof (rule ccontr)
    assume "\<not> ?thesis"
    from page_loop_stop[OF this] Cons.prems show False by simp
  qed
  then have b': "\<bar>p * 7\<bar> \<le> 999999999" "0 < toordinal (first_monday c) + p * 7"
    "toordinal (first_monday c) + p * 7 \<le> MAXORDINAL" by simp_all
  note step = page_loop_step[OF b']
  let ?col = "column_loop lib c p (page_monday c p) (int_truediv (x1 c - x0 c) 7) [0..6]
             (s\<lparr>rendered := rendered s @ [(p, dpi c)]\<rparr>)"
  from Cons.prems obtain s2 where s2: "?col = Inr s2" and r: "page_loop lib c rest s2 = Inr s'"
    unfolding step by (cases ?col) simp_all
  from column_loop_InrD[OF s2] b have "page_ok c p" "page_accepted lib c p"
    by (simp_all add: page_ok_def page_accepted_def)
  with Cons.IH[OF r] show ?case by simp
qed


lemma run_split_ok:
  "list_all (page_ok c) [0..page_count - 1] \<Longrightarrow> accepted lib c page_count \<Longrightarrow>
   run_split lib c page_count = Inr (run_result c page_count)"
  unfolding run_split_def accepted_def
  by (simp add: page_loop_Inr init_state_def run_result_def)

lemma run_split_InrD:
  assumes "run_split lib c page_count = Inr s"
  shows "s = run_result c page_count \<and> list_all (page_ok c) [0..page_count - 1]
         \<and> accepted lib c page_count"
proof -
  from assms have "page_loop lib c [0..page_count - 1] init_state = Inr s"
    by (simp add: run_split_def)
  from page_loop_InrD[OF this] have ok: "list_all (page_ok c) [0..page_count - 1]"
    and acc: "accepted lib c page_count" by (simp_all add: accepted_def)
  from run_split_ok[OF ok acc] assms ok acc show ?thesis by simp
qed


lemma accepted_empty:
  "zip_f (run_result c page_count) = [] \<Longrightarrow> accepted lib c page_count"
  by (auto simp add: accepted_def page_accepted_def cols_accepted_def run_result_def
      page_entries_def list_all_iff filter_empty_conv)

section \<open>Rounding\<close>

text \<open>Rounding to the nearest float changes a number by at most the fraction
  \<open>1 / 2 ^ 53\<close> of its size, and leaves the integers below \<open>2 ^ 53\<close> as they are.\<close>

lemma round_half_even_error: "\<bar>of_int (round_half_even r) - r\<bar> \<le> 1 / 2"
proof -
  define f where "f = \<lfloor>r\<rfloor>"
  define d where "d = r - of_int f"
  have d: "0 \<le> d" "d < 1" unfolding d_def f_def by linarith+
  have r: "r = of_int f + d" by (simp add: d_def)
  have "round_half_even r = f \<and> d \<le> 1 / 2 \<or> round_half_even r = f + 1 \<and> 1 / 2 \<le> d"
    unfolding round_half_even_def Let_def f_def[symmetric] d_def[symmetric] by auto
  then show ?thesis using d unfolding r by auto
qed

lemma round_half_even_of_int: "round_half_even (of_int n) = n"
  by (simp add: round_half_even_def)

lemma expo_lower:
  assumes "x \<noteq> 0"
  shows "2 powi (expo x) \<le> \<bar>x\<bar>"
proof (cases "1 \<le> \<bar>x\<bar>")
  case True
  define n where "n = nat \<lfloor>\<bar>x\<bar>\<rfloor>"
  have n: "0 < n" using True by (simp add: n_def)
  have nx: "of_nat n \<le> \<bar>x\<bar>"
    using True unfolding n_def by (simp add: of_nat_nat) 
  have fl1: "1 \<le> floorlog 2 n" using n by (simp add: floorlog_def)
  from floorlog_bounds[OF n, of 2] have "2 ^ (floorlog 2 n - 1) \<le> n" by simp
  then have "(2::rat) ^ (floorlog 2 n - 1) \<le> of_nat n"
    by (metis of_nat_le_iff of_nat_numeral of_nat_power)
  then have le: "(2::rat) ^ (floorlog 2 n - 1) \<le> \<bar>x\<bar>" using nx by (rule order_trans)
  have "expo x = int (floorlog 2 n - 1)"
    using True fl1 by (simp add: expo_def n_def of_nat_diff)
  then have "(2::rat) powi (expo x) = 2 ^ (floorlog 2 n - 1)" by (simp only: power_int_of_nat)
  with le show ?thesis by (simp only:)
next
  case False
  define m where "m = nat (\<lceil>1 / \<bar>x\<bar>\<rceil> - 1)"
  define k where "k = floorlog 2 m"
  have x: "0 < \<bar>x\<bar>" "\<bar>x\<bar> < 1" using assms False by simp_all
  then have "1 < 1 / \<bar>x\<bar>" using assms by simp
  then have c: "2 \<le> \<lceil>1 / \<bar>x\<bar>\<rceil>" by linarith
  then have m: "0 < m" by (simp add: m_def)
  from floorlog_bounds[OF m, of 2] have "m < 2 ^ k" by (simp add: k_def)
  then have "m + 1 \<le> 2 ^ k" by simp
  then have "int (m + 1) \<le> 2 ^ k" by (metis of_nat_le_iff of_nat_numeral of_nat_power)
  moreover have "int (m + 1) = \<lceil>1 / \<bar>x\<bar>\<rceil>" using c assms by (simp add: m_def)
  ultimately have "\<lceil>1 / \<bar>x\<bar>\<rceil> \<le> 2 ^ k" by simp
  then have "1 / \<bar>x\<bar> \<le> of_int (2 ^ k)" by (simp only: ceiling_le_iff)
  then have "1 / \<bar>x\<bar> \<le> 2 ^ k" by simp
  then have "1 \<le> 2 ^ k * \<bar>x\<bar>" using x(1) by (simp add: field_simps)
  then have "1 / 2 ^ k \<le> \<bar>x\<bar>" by (simp add: field_simps)
  moreover have "expo x = - int k" using False by (simp add: expo_def k_def m_def)
  ultimately show ?thesis by (simp add: power_int_minus_divide)
qed

lemma fl_error: "\<bar>fl x - x\<bar> \<le> \<bar>x\<bar> / 2 ^ 53"
proof (cases "x = 0")
  case True
  then show ?thesis by (simp add: fl_def)
next
  case False
  define u :: rat where "u = 2 powi (expo x - 52)"
  have u: "0 < u" by (simp add: u_def)
  have u2: "u / 2 = 2 powi (expo x) / 2 ^ 53"
    unfolding u_def by (simp add: power_int_diff)
  have "fl x - x = (of_int (round_half_even (x / u)) - x / u) * u"
    using False u by (simp add: fl_def u_def[symmetric] Let_def field_simps)
  then have "\<bar>fl x - x\<bar> = \<bar>of_int (round_half_even (x / u)) - x / u\<bar> * u"
    using u by (simp add: abs_mult)
  also have "\<dots> \<le> (1 / 2) * u"
    using round_half_even_error[of "x / u"] u by (intro mult_right_mono) simp_all
  also have "\<dots> = 2 powi (expo x) / 2 ^ 53" using u2 by simp
  also have "\<dots> \<le> \<bar>x\<bar> / 2 ^ 53"
    using expo_lower[OF False] by (simp add: divide_right_mono)
  finally show ?thesis .
qed

lemma fl_error_bound:
  assumes "\<bar>x\<bar> \<le> B"
  shows "\<bar>fl x - x\<bar> \<le> B / 2 ^ 53"
proof -
  have "\<bar>x\<bar> / 2 ^ 53 \<le> B / 2 ^ 53" using assms by (simp add: divide_right_mono)
  with fl_error[of x] show ?thesis by linarith
qed

lemma fl_int_exact:
  assumes "\<bar>n\<bar> < 2 ^ 53"
  shows "fl (of_int n) = of_int n"
proof (cases "n = 0")
  case True
  then show ?thesis by (simp add: fl_def)
next
  case False
  define e where "e = expo (of_int n)"
  have nz: "(of_int n :: rat) \<noteq> 0" using False by simp
  have "2 powi e \<le> \<bar>of_int n :: rat\<bar>" unfolding e_def by (rule expo_lower[OF nz])
  also have "\<dots> < 2 ^ 53"
  proof -
    have "(of_int \<bar>n\<bar> :: rat) < of_int (2 ^ 53)" using assms by (simp only: of_int_less_iff)
    then show ?thesis by simp
  qed
  finally have "(2::rat) powi e < 2 powi (53::int)" by simp
  then have e: "e < 53" by (rule power_int_le_imp_less_exp[rotated]) simp_all
  define k where "k = nat (52 - e)"
  have ek: "e - 52 = - int k" using e by (simp add: k_def)
  have u: "(2::rat) powi (e - 52) = 1 / 2 ^ k"
    unfolding ek by (simp add: power_int_minus_divide)
  have q: "of_int n / (1 / (2::rat) ^ k) = of_int (n * 2 ^ k)" by simp
  show ?thesis
    using nz unfolding fl_def Let_def e_def[symmetric] u q round_half_even_of_int
    by simp
qed

lemma fl_zero: "fl 0 = 0"
  by (simp add: fl_def)

lemma w_step_error:
  assumes "x0 c < x1 c"
  shows "\<bar>w_step_of c - of_int (x1 c - x0 c) / 7\<bar> \<le> of_int (x1 c - x0 c) / 7 / 2 ^ 53"
proof -
  have "\<bar>(of_int (x1 c - x0 c) :: rat) / of_int 7\<bar> \<le> of_int (x1 c - x0 c) / 7"
    using assms by simp
  from fl_error_bound[OF this] show ?thesis
    by (simp add: w_step_of_def int_truediv_def)
qed

lemma column_errors:
  assumes band: "x0 c < x1 c" "\<bar>x0 c\<bar> < 2 ^ 53" and i: "0 \<le> i" "i \<le> 6"
  defines "D \<equiv> (of_int (x1 c - x0 c) :: rat)"
  defines "K \<equiv> band_scale c"
  defines "w \<equiv> w_step_of c"
  defines "p \<equiv> float_mul (float_of_int i) (w_step_of c)"
  shows "\<bar>p - of_int i * w\<bar> \<le> K / 2 ^ 53"
    and "\<bar>d_left c i - (of_int (x0 c) + p)\<bar> \<le> 2 * K / 2 ^ 53"
    and "\<bar>float_add (d_left c i) w - (d_left c i + w)\<bar> \<le> 2 * K / 2 ^ 53"
proof -
  have D: "0 < D" using band(1) by (simp add: D_def)
  have K: "D \<le> K" "\<bar>of_int (x0 c) :: rat\<bar> \<le> K" "K = \<bar>of_int (x0 c)\<bar> + D"
    using D by (simp_all add: K_def band_scale_def D_def)
  have w: "\<bar>w - D / 7\<bar> \<le> D / 7 / 2 ^ 53"
    unfolding w_def D_def by (rule w_step_error[OF band(1)])
  then have wabs: "\<bar>w\<bar> \<le> D / 7 + D / 7 / 2 ^ 53" using D by linarith
  have fi: "float_of_int i = of_int i"
    unfolding float_of_int_def using i by (intro fl_int_exact) simp
  have f0: "float_of_int (x0 c) = of_int (x0 c)"
    unfolding float_of_int_def using band(2) by (rule fl_int_exact)
  have "\<bar>(of_int i :: rat) * w\<bar> = of_int i * \<bar>w\<bar>" using i by (simp add: abs_mult)
  also have "\<dots> \<le> 6 * \<bar>w\<bar>" using i by (intro mult_right_mono) simp_all
  finally have iw: "\<bar>(of_int i :: rat) * w\<bar> \<le> D" using wabs D by simp
  have pe: "\<bar>p - of_int i * w\<bar> \<le> D / 2 ^ 53"
    unfolding p_def float_mul_def fi w_def[symmetric] by (rule fl_error_bound[OF iw])
  then show "\<bar>p - of_int i * w\<bar> \<le> K / 2 ^ 53" using K(1) by simp
  have pabs: "\<bar>p\<bar> \<le> D + D / 2 ^ 53" using pe iw by linarith
  have "\<bar>of_int (x0 c) + p\<bar> \<le> 2 * K" using pabs K D by simp
  from fl_error_bound[OF this]
  show le: "\<bar>d_left c i - (of_int (x0 c) + p)\<bar> \<le> 2 * K / 2 ^ 53"
    by (simp add: d_left_def float_add_def f0 p_def)
  have w4: "\<bar>w\<bar> \<le> D / 4" using wabs D by simp
  have p4: "\<bar>p\<bar> \<le> D + D / 4" using pabs D by simp
  have k4: "2 * K / 2 ^ 53 \<le> K / 4" using K D by simp
  have "\<bar>d_left c i\<bar> \<le> \<bar>of_int (x0 c)\<bar> + \<bar>p\<bar> + 2 * K / 2 ^ 53" using le by linarith
  moreover have "\<bar>d_left c i + w\<bar> \<le> \<bar>d_left c i\<bar> + \<bar>w\<bar>" by (rule abs_triangle_ineq)
  ultimately have "\<bar>d_left c i + w\<bar> \<le> 2 * K" using w4 p4 k4 K(3) D by linarith
  from fl_error_bound[OF this]
  show "\<bar>float_add (d_left c i) w - (d_left c i + w)\<bar> \<le> 2 * K / 2 ^ 53"
    by (simp add: float_add_def)
qed

lemma adjacent_edges:
  assumes band: "x0 c < x1 c" "\<bar>x0 c\<bar> < 2 ^ 53" and i: "0 \<le> i" "i < 6"
  shows "\<bar>d_right c i - d_left c (i + 1)\<bar> \<le> band_scale c / 2 ^ 50"
proof -
  define w where "w = w_step_of c"
  define K where "K = band_scale c"
  define p where "p = float_mul (float_of_int i) (w_step_of c)"
  define p' where "p' = float_mul (float_of_int (i + 1)) (w_step_of c)"
  have i': "0 \<le> i" "i \<le> 6" "0 \<le> i + 1" "i + 1 \<le> 6" using i by simp_all
  note a = column_errors[OF band i'(1,2), folded w_def K_def p_def]
  note b = column_errors[OF band i'(3,4), folded w_def K_def p'_def]
  have s: "(of_int (i + 1) :: rat) * w = of_int i * w + w" by (simp add: algebra_simps)
  have r: "d_right c i = float_add (d_left c i) w" using i by (simp add: d_right_def w_def)
  have "\<bar>d_right c i - d_left c (i + 1)\<bar> \<le> 8 * K / 2 ^ 53"
    unfolding r using a(1,2,3) b(1,2) unfolding s by linarith
  then show ?thesis by (simp add: K_def)
qed

lemma first_left_edge:
  assumes "\<bar>x0 c\<bar> < 2 ^ 53"
  shows "d_left c 0 = of_int (x0 c)"
proof -
  have "float_of_int (x0 c) = of_int (x0 c)"
    unfolding float_of_int_def using assms by (rule fl_int_exact)
  then show ?thesis
    by (simp add: d_left_def float_add_def float_mul_def float_of_int_def fl_zero)
qed

lemma round_half_even_gap:
  assumes "r + 1 < s"
  shows "round_half_even r < round_half_even s"
proof -
  have "(of_int (round_half_even r) :: rat) < of_int (round_half_even s)"
    using round_half_even_error[of r] round_half_even_error[of s] assms by linarith
  then show ?thesis by (simp only: of_int_less_iff)
qed

lemma w_step_lower:
  assumes "x0 c < x1 c"
  shows "of_int (x1 c - x0 c) / 7 - of_int (x1 c - x0 c) / 7 / 2 ^ 53 \<le> w_step_of c"
    and "w_step_of c \<le> of_int (x1 c - x0 c) / 7 + of_int (x1 c - x0 c) / 7 / 2 ^ 53"
  using w_step_error[OF assms] by linarith+

lemma column_width:
  assumes band: "x0 c + 14 \<le> x1 c" "\<bar>x0 c\<bar> < 2 ^ 49" "x1 c - x0 c < 2 ^ 49"
    and i: "0 \<le> i" "i \<le> 6"
  shows "d_left c i + 1 < d_right c i"
proof -
  define D :: rat where "D = of_int (x1 c - x0 c)"
  define K where "K = band_scale c"
  define w where "w = w_step_of c"
  define p where "p = float_mul (float_of_int i) (w_step_of c)"
  have lt: "x0 c < x1 c" and small: "\<bar>x0 c\<bar> < 2 ^ 53" using band by simp_all
  note e = column_errors[OF lt small i, folded w_def K_def p_def]
  note wb = w_step_lower[OF lt, folded w_def D_def]
  have D: "14 \<le> D" using band(1) by (simp add: D_def)
  have "(of_int \<bar>x0 c\<bar> :: rat) < of_int (2 ^ 49)" using band(2) by (simp only: of_int_less_iff)
  then have X: "\<bar>of_int (x0 c) :: rat\<bar> < 2 ^ 49" by simp
  have "(of_int (x1 c - x0 c) :: rat) < of_int (2 ^ 49)" using band(3) by (simp only: of_int_less_iff)
  then have D2: "D < 2 ^ 49" by (simp add: D_def)
  have K: "K = \<bar>of_int (x0 c)\<bar> + D" by (simp add: K_def band_scale_def D_def)
  have Ksmall: "4 * K / 2 ^ 53 \<le> 1 / 2" using X D2 unfolding K by simp
  have k2: "2 * K / 2 ^ 53 \<le> 1 / 4" using Ksmall by simp
  show ?thesis
  proof (cases "i < 6")
    case True
    then have r: "d_right c i = float_add (d_left c i) w" by (simp add: d_right_def w_def)
    have a: "d_left c i + w - 2 * K / 2 ^ 53 \<le> d_right c i" unfolding r using e(3) by linarith
    have "2 - 2 / 2 ^ 53 \<le> w" using wb(1) D by simp
    then have "3 / 2 \<le> w" by simp
    with a k2 show ?thesis by linarith
  next
    case False
    with i have i6: "i = 6" by simp
    have r: "d_right c i = of_int (x1 c)" using False by (simp add: d_right_def)
    have x1: "(of_int (x1 c) :: rat) = of_int (x0 c) + D" by (simp add: D_def)
    have "\<bar>p - 6 * w\<bar> \<le> K / 2 ^ 53" using e(1) unfolding i6 by simp
    then have e1: "p \<le> 6 * w + K / 2 ^ 53" by linarith
    have e2: "d_left c i \<le> of_int (x0 c) + p + 2 * K / 2 ^ 53" using e(2) by linarith
    have e3: "6 * w \<le> 6 * (D / 7) + 6 * (D / 7 / 2 ^ 53)" using wb(2) by simp
    have "6 * (D / 7 / 2 ^ 53) \<le> D / 2 ^ 53" using D by simp
    also have "\<dots> \<le> K / 2 ^ 53" unfolding K by (simp add: divide_right_mono)
    finally have e4: "6 * (D / 7 / 2 ^ 53) \<le> K / 2 ^ 53" .
    have k: "K / 2 ^ 53 + K / 2 ^ 53 + 2 * K / 2 ^ 53 = 4 * K / 2 ^ 53" by simp
    have "d_left c i \<le> of_int (x0 c) + 6 * (D / 7) + 4 * K / 2 ^ 53"
      using e1 e2 e3 e4 unfolding k[symmetric] by linarith
    moreover have "6 * (D / 7) + 2 \<le> D" using D by simp
    ultimately show ?thesis unfolding r x1 using Ksmall by linarith
  qed
qed

lemma wide_band_accepted:
  assumes "x0 c + 14 \<le> x1 c" "y0 c < y1 c" "\<bar>x0 c\<bar> < 2 ^ 49" "x1 c - x0 c < 2 ^ 49"
  shows "band_accepted c"
proof -
  have "box_rejected (crop_box c i) = None" if "i \<in> set [0..6]" for i
  proof -
    from that have i: "0 \<le> i" "i \<le> 6" by simp_all
    from column_width[OF assms(1,3,4) i] have w: "d_left c i + 1 < d_right c i" .
    from round_half_even_gap[OF w]
    have "round_half_even (d_right c i) \<noteq> round_half_even (d_left c i)" by simp
    moreover have "\<not> d_right c i < d_left c i" using w by simp
    ultimately show ?thesis
      using assms(2) by (simp add: box_rejected_def crop_box_def round_half_even_of_int)
  qed
  then show ?thesis unfolding band_accepted_def list_all_iff by blast
qed


section \<open>The runs of the examples\<close>

lemma column_entry_box:
  "e_box (column_entry c p pm (int_truediv (x1 c - x0 c) 7) i) = crop_box c i"
  by (simp add: column_entry_def crop_box_def d_left_def d_right_def w_step_of_def Let_def)

lemma band_accepted_run:
  assumes "band_accepted c"
  shows "accepted pillow c page_count"
proof -
  have "pillow (p, dpi c) (e_box (column_entry c p (page_monday c p)
          (int_truediv (x1 c - x0 c) 7) i)) = None" if "i \<in> set [0..6]" for p i
    using assms that unfolding band_accepted_def list_all_iff column_entry_box pillow_def
    by blast
  then show ?thesis
    unfolding accepted_def page_accepted_def cols_accepted_def list_all_iff by blast
qed

lemma january_band_accepted: "band_accepted january_2026"
  by (rule wide_band_accepted) (simp_all add: january_2026_def)

lemma january_pages_ok: "list_all (page_ok january_2026) [0..5 - 1]"
  by code_simp

lemma january_run: "run_split pillow january_2026 5 = Inr (run_result january_2026 5)"
  by (rule run_split_ok[OF january_pages_ok band_accepted_run[OF january_band_accepted]])

lemma in_page_entries:
  "0 \<le> i \<Longrightarrow> i \<le> 6 \<Longrightarrow> selected c (page_monday c p) i \<Longrightarrow>
   column_entry c p (page_monday c p) (int_truediv (x1 c - x0 c) 7) i \<in> set (page_entries c p)"
  by (simp add: page_entries_def)

lemma in_run_result:
  "0 \<le> p \<Longrightarrow> p < page_count \<Longrightarrow> e \<in> set (page_entries c p) \<Longrightarrow>
   e \<in> set (zip_f (run_result c page_count))"
  by (auto simp add: run_result_def)

lemma in_run_resultD:
  "e \<in> set (zip_f (run_result c page_count)) \<Longrightarrow>
   \<exists>p i. 0 \<le> p \<and> p < page_count \<and> 0 \<le> i \<and> i \<le> 6 \<and> selected c (page_monday c p) i
     \<and> e = column_entry c p (page_monday c p) (int_truediv (x1 c - x0 c) 7) i"
  by (clarsimp simp add: run_result_def page_entries_def) blast

lemma january_sel: "selected january_2026 (page_monday january_2026 0) 6"
  by code_simp

lemma january_sel2: "selected january_2026 (page_monday january_2026 3) 2"
  by code_simp

lemma cell_date_page_ok:
  assumes "page_ok c p" "0 \<le> i" "i \<le> 6"
  shows "cell_date (first_monday c) p i = date_add (page_monday c p) i"
    and "date_add (page_monday c p) i = Inr (fromordinal (toordinal (page_monday c p) + i))"
proof -
  from assms have cols: "columns_ok (page_monday c p) [0..6]" by (simp add: page_ok_def)
  have "i \<in> set [0..6]" using assms by simp
  with cols have i: "\<bar>i\<bar> \<le> 999999999" "0 < toordinal (page_monday c p) + i"
    "toordinal (page_monday c p) + i \<le> MAXORDINAL"
    unfolding columns_ok_def list_all_iff by blast+
  have td: "timedelta (p * 7) = Inr (p * 7)"
    using assms by (simp add: page_ok_def timedelta_def)
  have da: "date_add (first_monday c) (p * 7) = Inr (page_monday c p)"
    using assms by (simp add: page_ok_def date_add_def page_monday_def)
  have tdi: "timedelta i = Inr i" using i by (simp add: timedelta_def)
  show "cell_date (first_monday c) p i = date_add (page_monday c p) i"
    by (simp add: cell_date_def td da tdi)
  show "date_add (page_monday c p) i = Inr (fromordinal (toordinal (page_monday c p) + i))"
    using i by (simp add: date_add_def)
qed

lemma selected_cell_date:
  assumes "page_ok c p" "0 \<le> i" "i \<le> 6"
  shows "selected c (page_monday c p) i \<longleftrightarrow>
           (\<exists>d. cell_date (first_monday c) p i = Inr d \<and> month d = target_month c)"
  unfolding selected_def cell_date_page_ok(1)[OF assms] cell_date_page_ok(2)[OF assms]
  by simp

lemma column_entry_sel [simp]:
  "e_page (column_entry c p pm w i) = p"
  "e_col (column_entry c p pm w i) = i"
  "e_date (column_entry c p pm w i) = projr (date_add pm i)"
  "e_name (column_entry c p pm w i) = py_str (day (projr (date_add pm i))) @ ''.png''"
  by (simp_all add: column_entry_def Let_def)

lemma page_ok_mem:
  "list_all (page_ok c) [0..page_count - 1] \<Longrightarrow> 0 \<le> p \<Longrightarrow> p < page_count \<Longrightarrow> page_ok c p"
  by (simp add: list_all_iff)

lemma page_entries_page: "e \<in> set (page_entries c p) \<Longrightarrow> e_page e = p"
  by (auto simp add: page_entries_def)

lemma page_entries_col:
  "map e_col (page_entries c p) = filter (selected c (page_monday c p)) [0..6]"
  by (simp add: page_entries_def comp_def)

lemma page_entries_sorted: "sorted_wrt entry_before (page_entries c p)"
proof -
  have "sorted_wrt (<) (filter (selected c (page_monday c p)) [0..6])"
    by (rule sorted_wrt_filter) simp
  then have "sorted_wrt (\<lambda>a b. e_col a < e_col b) (page_entries c p)"
    unfolding page_entries_col[symmetric] sorted_wrt_map .
  then show ?thesis
    by (rule sorted_wrt_mono_rel[rotated]) (simp add: entry_before_def page_entries_page)
qed

lemma concat_pages_sorted:
  "sorted_wrt (<) ps \<Longrightarrow> sorted_wrt entry_before (concat (map (page_entries c) ps))"
proof (induction ps)
  case Nil
  show ?case by simp
next
  case (Cons p rest)
  then have rest: "sorted_wrt entry_before (concat (map (page_entries c) rest))"
    and lt: "\<forall>q\<in>set rest. p < q" by simp_all
  have "entry_before a b"
    if "a \<in> set (page_entries c p)" "b \<in> set (concat (map (page_entries c) rest))" for a b
  proof -
    from that(2) obtain q where "q \<in> set rest" "b \<in> set (page_entries c q)" by auto
    with lt that(1) show ?thesis
      by (auto simp add: entry_before_def dest!: page_entries_page)
  qed
  with rest page_entries_sorted[of c p] show ?case
    by (simp add: sorted_wrt_append)
qed

lemma january_sunday:
  "column_entry january_2026 0 (page_monday january_2026 0)
     (int_truediv (x1 january_2026 - x0 january_2026) 7) 6 \<in> set (zip_f (run_result january_2026 5))"
  by (rule in_run_result[OF _ _ in_page_entries[OF _ _ january_sel]]) simp_all




lemma run_count:
  "saved_count (run_result c page_count) = int (length (map e_name (zip_f (run_result c page_count))))"
  by (simp add: run_result_def)

lemma cell_date_InrD:
  assumes "cell_date a p i = Inr d"
  shows "\<bar>p * 7\<bar> \<le> 999999999" "0 < toordinal a + p * 7" "toordinal a + p * 7 \<le> MAXORDINAL"
    "\<bar>i\<bar> \<le> 999999999" "0 < toordinal (fromordinal (toordinal a + p * 7)) + i"
    "toordinal (fromordinal (toordinal a + p * 7)) + i \<le> MAXORDINAL"
  using assms
  by (auto simp add: cell_date_def timedelta_def date_add_def Let_def split: if_splits)

lemma cells_page_ok:
  assumes "\<forall>i. 0 \<le> i \<and> i \<le> 6 \<longrightarrow> (\<exists>d. cell_date (first_monday c) p i = Inr d)"
  shows "page_ok c p"
proof -
  have "\<bar>i\<bar> \<le> 999999999 \<and> 0 < toordinal (page_monday c p) + i
        \<and> toordinal (page_monday c p) + i \<le> MAXORDINAL" if "i \<in> set [0..6]" for i
  proof -
    from that assms obtain d where "cell_date (first_monday c) p i = Inr d" by auto
    from cell_date_InrD(4-6)[OF this] show ?thesis by (simp add: page_monday_def)
  qed
  then have cols: "columns_ok (page_monday c p) [0..6]"
    unfolding columns_ok_def list_all_iff by blast
  from assms obtain d where "cell_date (first_monday c) p 0 = Inr d" by force
  from cell_date_InrD(1-3)[OF this] cols show ?thesis by (simp add: page_ok_def)
qed



lemma march_cells:
  "list_all (\<lambda>i. case cell_date (first_monday march_2026) 0 i of
                    Inl _ \<Rightarrow> False | Inr d \<Rightarrow> month d \<noteq> target_month march_2026) [0..6]"
  by code_simp

section \<open>The calendar arithmetic\<close>

text \<open>The ordinal of the date built from an ordinal is that ordinal; the dates built
  from the ordinals 1 to \<open>MAXORDINAL\<close> are valid, and valid dates have such ordinals.\<close>

lemma year_decomp:
  fixes q a b c :: int
  assumes "0 \<le> a" "a \<le> 3" "0 \<le> b" "b \<le> 24" "0 \<le> c" "c \<le> 3"
  defines "y \<equiv> 400 * q + 100 * a + 4 * b + c"
  shows "y div 4 = 100 * q + 25 * a + b" "y mod 4 = c"
    "y div 100 = 4 * q + a" "y mod 100 = 4 * b + c"
    "y div 400 = q" "y mod 400 = 100 * a + 4 * b + c"
proof -
  have e4: "y = 4 * (100 * q + 25 * a + b) + c" by (simp add: y_def)
  have e100: "y = 100 * (4 * q + a) + (4 * b + c)" by (simp add: y_def)
  have e400: "y = 400 * q + (100 * a + 4 * b + c)" by (simp add: y_def)
  show "y div 4 = 100 * q + 25 * a + b" using assms(5,6) by (intro int_div_pos_eq[OF e4]) simp_all
  show "y mod 4 = c" using assms(5,6) by (intro int_mod_pos_eq[OF e4]) simp_all
  show "y div 100 = 4 * q + a" using assms by (intro int_div_pos_eq[OF e100]) simp_all
  show "y mod 100 = 4 * b + c" using assms by (intro int_mod_pos_eq[OF e100]) simp_all
  show "y div 400 = q" using assms by (intro int_div_pos_eq[OF e400]) simp_all
  show "y mod 400 = 100 * a + 4 * b + c" using assms by (intro int_mod_pos_eq[OF e400]) simp_all
qed

lemma days_before_year_decomp:
  fixes q a b c :: int
  assumes "0 \<le> a" "a \<le> 3" "0 \<le> b" "b \<le> 24" "0 \<le> c" "c \<le> 3"
  shows "days_before_year (400 * q + 100 * a + 4 * b + c + 1)
           = 146097 * q + 36524 * a + 1461 * b + 365 * c"
  unfolding days_before_year_def Let_def
  using year_decomp(1,3,5)[OF assms, of q] by simp

lemma is_leap_decomp:
  fixes q a b c :: int
  assumes "0 \<le> a" "a \<le> 3" "0 \<le> b" "b \<le> 24" "0 \<le> c" "c \<le> 3"
  shows "is_leap (400 * q + 100 * a + 4 * b + c + 1) \<longleftrightarrow> c = 3 \<and> (b \<noteq> 24 \<or> a = 3)"
proof -
  let ?y = "400 * q + 100 * a + 4 * b + c + 1"
  consider "c \<le> 2" | "c = 3" "b \<le> 23" | "c = 3" "b = 24" "a \<le> 2" | "c = 3" "b = 24" "a = 3"
    using assms by linarith
  then show ?thesis
  proof cases
    case 1
    have y: "?y = 400 * q + 100 * a + 4 * b + (c + 1)" by simp
    have "(400 * q + 100 * a + 4 * b + (c + 1)) mod 4 = c + 1"
      using assms 1 by (intro year_decomp(2)) simp_all
    then show ?thesis unfolding is_leap_def y using 1 assms by simp
  next
    case 2
    have y: "?y = 400 * q + 100 * a + 4 * (b + 1) + 0" using 2 by simp
    have "(400 * q + 100 * a + 4 * (b + 1) + 0) mod 4 = 0"
      "(400 * q + 100 * a + 4 * (b + 1) + 0) mod 100 = 4 * (b + 1) + 0"
      using assms 2 by (intro year_decomp(2,4); simp)+
    then show ?thesis unfolding is_leap_def y using 2 assms by simp
  next
    case 3
    have y: "?y = 400 * q + 100 * (a + 1) + 4 * 0 + 0" using 3 by simp
    have "(400 * q + 100 * (a + 1) + 4 * 0 + 0) mod 4 = 0"
      "(400 * q + 100 * (a + 1) + 4 * 0 + 0) mod 100 = 4 * 0 + 0"
      "(400 * q + 100 * (a + 1) + 4 * 0 + 0) mod 400 = 100 * (a + 1) + 4 * 0 + 0"
      using assms 3 by (intro year_decomp(2,4,6); simp)+
    then show ?thesis unfolding is_leap_def y using 3 assms by simp
  next
    case 4
    have y: "?y = 400 * (q + 1) + 100 * 0 + 4 * 0 + 0" using 4 by simp
    have "(400 * (q + 1) + 100 * 0 + 4 * 0 + 0) mod 4 = 0"
      "(400 * (q + 1) + 100 * 0 + 4 * 0 + 0) mod 400 = 100 * 0 + 4 * 0 + 0"
      by (intro year_decomp(2,6); simp)+
    then show ?thesis unfolding is_leap_def y using 4 by simp
  qed
qed

lemma month_ok_all: "list_all (\<lambda>n. month_ok n True \<and> month_ok n False) [0..364]"
  by code_simp

lemma month_part_ok: "0 \<le> n \<Longrightarrow> n < 365 \<Longrightarrow> month_ok n l"
proof -
  assume "0 \<le> n" "n < 365"
  then have "n \<in> set [0..364]" by simp
  with month_ok_all have "month_ok n True \<and> month_ok n False"
    unfolding list_all_iff by blast
  then show ?thesis by (cases l) simp_all
qed

lemma ord2ymd_correct:
  assumes "ord2ymd n = (y, m, d)"
  shows "ymd2ord y m d = n \<and> 1 \<le> m \<and> m \<le> 12 \<and> 1 \<le> d \<and> d \<le> days_in_month y m"
proof -
  define q where "q = (n - 1) div 146097"
  define r1 where "r1 = (n - 1) mod 146097"
  define a where "a = r1 div 36524"
  define r2 where "r2 = r1 mod 36524"
  define b where "b = r2 div 1461"
  define r3 where "r3 = r2 mod 1461"
  define c where "c = r3 div 365"
  define r4 where "r4 = r3 mod 365"
  have n: "n - 1 = 146097 * q + r1" and r1: "0 \<le> r1" "r1 < 146097"
    by (simp_all add: q_def r1_def)
  have e1: "r1 = 36524 * a + r2" and r2: "0 \<le> r2" "r2 < 36524"
    by (simp_all add: a_def r2_def)
  have e2: "r2 = 1461 * b + r3" and r3: "0 \<le> r3" "r3 < 1461"
    by (simp_all add: b_def r3_def)
  have e3: "r3 = 365 * c + r4" and r4: "0 \<le> r4" "r4 < 365"
    by (simp_all add: c_def r4_def)
  have a: "0 \<le> a" "a \<le> 4" using e1 r1 r2 by linarith+
  have b: "0 \<le> b" "b \<le> 24" using e2 r2 r3 by linarith+
  have c: "0 \<le> c" "c \<le> 4" using e3 r3 r4 by linarith+
  let ?L = "c = 3 \<and> (b \<noteq> 24 \<or> a = 3)"
  have unf: "ord2ymd n =
      (if c = 4 \<or> a = 4 then (q * 400 + 1 + (a * 100 + b * 4 + c) - 1, 12, 31)
       else (case month_part r4 ?L of (mo, d) \<Rightarrow> (q * 400 + 1 + (a * 100 + b * 4 + c), mo, d)))"
    unfolding ord2ymd_def DI400Y_def DI100Y_def DI4Y_def Let_def
      q_def[symmetric] r1_def[symmetric] a_def[symmetric] r2_def[symmetric]
      b_def[symmetric] r3_def[symmetric] c_def[symmetric] r4_def[symmetric] ..
  consider (A) "a = 4" | (B) "a \<le> 3" "c = 4" | (C) "a \<le> 3" "c \<le> 3"
    using a c by linarith
  then show ?thesis
  proof cases
    case A
    then have z: "r2 = 0" "b = 0" "r3 = 0" "c = 0" "r4 = 0" "r1 = 146096"
      using e1 e2 e3 r1 r2 r3 r4 b c by linarith+
    from assms unf A z have ymd: "y = 400 * q + 100 * 3 + 4 * 24 + 3 + 1" "m = 12" "d = 31"
      by simp_all
    have dby: "days_before_year y = 146097 * q + 36524 * 3 + 1461 * 24 + 365 * 3"
      unfolding ymd by (rule days_before_year_decomp) simp_all
    have leap: "is_leap y"
      unfolding ymd by (subst is_leap_decomp) simp_all
    show ?thesis
      using n z dby leap
      by (simp add: ymd2ord_def days_before_month_def days_in_month_def
          DAYS_BEFORE_MONTH_def DAYS_IN_MONTH_def ymd(2,3))
  next
    case B
    then have z: "r4 = 0" "r3 = 1460" using e3 r3 r4 by linarith+
    then have b': "b \<le> 23" using e2 r2 b by linarith
    from assms unf B have ymd: "y = 400 * q + 100 * a + 4 * b + 3 + 1" "m = 12" "d = 31"
      by simp_all
    have dby: "days_before_year y = 146097 * q + 36524 * a + 1461 * b + 365 * 3"
      unfolding ymd using a B b by (intro days_before_year_decomp) simp_all
    have leap: "is_leap y"
      unfolding ymd using a B b b' by (subst is_leap_decomp) simp_all
    show ?thesis
      using n e1 e2 z dby leap
      by (simp add: ymd2ord_def days_before_month_def days_in_month_def
          DAYS_BEFORE_MONTH_def DAYS_IN_MONTH_def ymd(2,3))
  next
    case C
    obtain mo dd where mp: "month_part r4 ?L = (mo, dd)" by (cases "month_part r4 ?L")
    from assms unf C mp have ymd: "y = 400 * q + 100 * a + 4 * b + c + 1" "m = mo" "d = dd"
      by simp_all
    have dby: "days_before_year y = 146097 * q + 36524 * a + 1461 * b + 365 * c"
      unfolding ymd using a b c C by (intro days_before_year_decomp) simp_all
    have leap: "is_leap y \<longleftrightarrow> ?L"
      unfolding ymd using a b c C by (intro is_leap_decomp) simp_all
    from month_part_ok[OF r4, of ?L] mp
    have mo: "1 \<le> mo" "mo \<le> 12" "1 \<le> dd"
      "dd \<le> (if mo = 2 \<and> ?L then 29 else DAYS_IN_MONTH ! nat mo)"
      "DAYS_BEFORE_MONTH ! nat mo + (if mo > 2 \<and> ?L then 1 else 0) + dd = r4 + 1"
      by (simp_all add: month_ok_def)
    have "ymd2ord y m d = n"
      using n e1 e2 e3 dby mo(5) unfolding ymd2ord_def days_before_month_def leap ymd(2,3)
      by linarith
    moreover have "d \<le> days_in_month y m"
      using mo(4) unfolding days_in_month_def leap ymd(2,3) by simp
    ultimately show ?thesis using mo(1-3) by (simp add: ymd(2,3))
  qed
qed

lemma toordinal_fromordinal: "toordinal (fromordinal n) = n"
proof -
  obtain y m d where e: "ord2ymd n = (y, m, d)" by (cases "ord2ymd n")
  from ord2ymd_correct[OF e] show ?thesis
    by (simp add: toordinal_def fromordinal_def e)
qed

lemma div_succ:
  fixes t k :: int
  assumes k: "0 < k"
  shows "(t + 1) div k = t div k + (if (t + 1) mod k = 0 then 1 else 0)"
proof -
  define q where "q = t div k"
  define r where "r = t mod k"
  have t: "t = k * q + r" and r: "0 \<le> r" "r < k" using k by (simp_all add: q_def r_def)
  show ?thesis
  proof (cases "r + 1 = k")
    case True
    then have e: "t + 1 = k * (q + 1) + 0" using t by (simp add: algebra_simps)
    have "(t + 1) div k = q + 1" using k by (intro int_div_pos_eq[OF e]) simp_all
    moreover have "(t + 1) mod k = 0" using k by (intro int_mod_pos_eq[OF e]) simp_all
    ultimately show ?thesis by (simp add: q_def)
  next
    case False
    then have lt: "r + 1 < k" using r by simp
    have e: "t + 1 = k * q + (r + 1)" using t by simp
    have "(t + 1) div k = q" using r lt by (intro int_div_pos_eq[OF e]) simp_all
    moreover have "(t + 1) mod k = r + 1" using r lt by (intro int_mod_pos_eq[OF e]) simp_all
    ultimately show ?thesis using r by (simp add: q_def)
  qed
qed

lemma mod_100_4: "(y::int) mod 100 = 0 \<Longrightarrow> y mod 4 = 0"
  by (simp add: mod_eq_0_iff_dvd) (erule dvd_trans[rotated], simp)

lemma mod_400_100: "(y::int) mod 400 = 0 \<Longrightarrow> y mod 100 = 0"
  by (simp add: mod_eq_0_iff_dvd) (erule dvd_trans[rotated], simp)

lemma days_before_year_step:
  "days_before_year (y + 1) = days_before_year y + 365 + (if is_leap y then 1 else 0)"
proof -
  define A where "A = (y - 1) div 4"
  define B where "B = (y - 1) div 100"
  define C where "C = (y - 1) div 400"
  define p4 where "p4 \<longleftrightarrow> y mod 4 = 0"
  define p100 where "p100 \<longleftrightarrow> y mod 100 = 0"
  define p400 where "p400 \<longleftrightarrow> y mod 400 = 0"
  have d4: "y div 4 = A + (if p4 then 1 else 0)"
    using div_succ[of 4 "y - 1"] by (simp add: A_def p4_def)
  have d100: "y div 100 = B + (if p100 then 1 else 0)"
    using div_succ[of 100 "y - 1"] by (simp add: B_def p100_def)
  have d400: "y div 400 = C + (if p400 then 1 else 0)"
    using div_succ[of 400 "y - 1"] by (simp add: C_def p400_def)
  have i1: "p100 \<Longrightarrow> p4" unfolding p100_def p4_def by (rule mod_100_4)
  have i2: "p400 \<Longrightarrow> p100" unfolding p100_def p400_def by (rule mod_400_100)
  have lhs: "days_before_year (y + 1) = y * 365 + y div 4 - y div 100 + y div 400"
    by (simp add: days_before_year_def Let_def)
  have rhs: "days_before_year y = (y - 1) * 365 + A - B + C"
    unfolding days_before_year_def Let_def A_def B_def C_def ..
  have leap: "is_leap y \<longleftrightarrow> p4 \<and> (\<not> p100 \<or> p400)"
    by (simp add: is_leap_def p4_def p100_def p400_def)
  show ?thesis
    unfolding lhs rhs leap d4 d100 d400 using i1 i2
    by (cases p4; cases p100; cases p400) (simp_all add: algebra_simps)
qed

lemma days_before_year_mono_aux:
  "days_before_year y + 365 * int k \<le> days_before_year (y + int k)"
proof (induction k)
  case 0
  show ?case by simp
next
  case (Suc k)
  have "y + int (Suc k) = (y + int k) + 1" by simp
  then have "days_before_year (y + int (Suc k)) = days_before_year ((y + int k) + 1)"
    by (rule arg_cong)
  also have "\<dots> \<ge> days_before_year (y + int k) + 365"
    unfolding days_before_year_step by simp
  finally show ?case using Suc.IH by simp
qed

lemma days_before_year_gap:
  assumes "ya \<le> yb"
  shows "days_before_year ya + 365 * (yb - ya) \<le> days_before_year yb"
  using days_before_year_mono_aux[of ya "nat (yb - ya)"] assms by simp

lemma days_before_month_bounds:
  assumes "1 \<le> m" "m \<le> 12"
  shows "0 \<le> days_before_month y m"
    and "days_before_month y m + days_in_month y m \<le> 365 + (if is_leap y then 1 else 0)"
    and "1 \<le> days_in_month y m"
proof -
  from assms have "m \<in> set [1..12]" by simp
  then have m: "m = 1 \<or> m = 2 \<or> m = 3 \<or> m = 4 \<or> m = 5 \<or> m = 6 \<or> m = 7 \<or> m = 8 \<or> m = 9
      \<or> m = 10 \<or> m = 11 \<or> m = 12"
    by (simp add: upto_rec1)
  show "0 \<le> days_before_month y m"
    using m by (auto simp add: days_before_month_def DAYS_BEFORE_MONTH_def)
  show "days_before_month y m + days_in_month y m \<le> 365 + (if is_leap y then 1 else 0)"
    using m by (auto simp add: days_before_month_def days_in_month_def DAYS_BEFORE_MONTH_def
        DAYS_IN_MONTH_def)
  show "1 \<le> days_in_month y m"
    using m by (auto simp add: days_in_month_def DAYS_IN_MONTH_def)
qed

lemma days_before_year_1: "days_before_year 1 = 0"
  by (simp add: days_before_year_def)

lemma days_before_year_10000: "days_before_year 10000 = 3652059"
  by (simp add: days_before_year_def)

lemma valid_date_ordinal:
  assumes "valid_date d"
  shows "1 \<le> toordinal d" "toordinal d \<le> MAXORDINAL"
proof -
  from assms have y: "1 \<le> year d" "year d \<le> 9999" and m: "1 \<le> month d" "month d \<le> 12"
    and dd: "1 \<le> day d" "day d \<le> days_in_month (year d) (month d)"
    by (simp_all add: valid_date_def MINYEAR_def MAXYEAR_def)
  have lo: "0 \<le> days_before_year (year d)"
    using days_before_year_gap[OF y(1)] y(1) by (simp add: days_before_year_1)
  have "days_before_year (year d + 1) \<le> days_before_year 10000"
    using days_before_year_gap[of "year d + 1" 10000] y(2) by simp
  then have hi: "days_before_year (year d) + 365 + (if is_leap (year d) then 1 else 0) \<le> 3652059"
    by (simp add: days_before_year_step days_before_year_10000)
  show "1 \<le> toordinal d"
    using lo days_before_month_bounds(1)[OF m, of "year d"] dd(1)
    by (simp add: toordinal_def ymd2ord_def)
  show "toordinal d \<le> MAXORDINAL"
    using hi days_before_month_bounds(2)[OF m, of "year d"] dd(2)
    by (simp add: toordinal_def ymd2ord_def MAXORDINAL_def)
qed

lemma valid_date_fromordinal:
  assumes "1 \<le> n" "n \<le> MAXORDINAL"
  shows "valid_date (fromordinal n)"
proof -
  obtain y m d where e: "ord2ymd n = (y, m, d)" by (cases "ord2ymd n")
  from ord2ymd_correct[OF e] have o: "ymd2ord y m d = n" and m: "1 \<le> m" "m \<le> 12"
    and d: "1 \<le> d" "d \<le> days_in_month y m" by simp_all
  have "1 \<le> y"
  proof (rule ccontr)
    assume "\<not> 1 \<le> y"
    then have "y + 1 \<le> 1" by simp
    from days_before_year_gap[OF this] \<open>\<not> 1 \<le> y\<close>
    have "days_before_year y + 365 + (if is_leap y then 1 else 0) \<le> 0"
      by (simp add: days_before_year_step days_before_year_1 split: if_splits)
    with days_before_month_bounds(2)[OF m, of y] d(2) o assms(1) show False
      by (simp add: ymd2ord_def split: if_splits)
  qed
  moreover have "y \<le> 9999"
  proof (rule ccontr)
    assume "\<not> y \<le> 9999"
    then have "10000 \<le> y" by simp
    from days_before_year_gap[OF this] \<open>10000 \<le> y\<close>
    have "3652059 \<le> days_before_year y" by (simp add: days_before_year_10000)
    with days_before_month_bounds(1)[OF m, of y] d(1) o assms(2) show False
      by (simp add: ymd2ord_def MAXORDINAL_def)
  qed
  ultimately show ?thesis
    using m d by (simp add: valid_date_def fromordinal_def e MINYEAR_def MAXYEAR_def)
qed

lemma ymd2ord_year_gap:
  assumes "ya < yb" "1 \<le> m" "m \<le> 12"
  shows "ymd2ord ya m d + 365 \<le> ymd2ord yb m d"
proof -
  have "days_before_year (ya + 1) \<le> days_before_year yb"
    using days_before_year_gap[of "ya + 1" yb] assms(1) by simp
  then have "days_before_year ya + 365 + (if is_leap ya then 1 else 0) \<le> days_before_year yb"
    by (simp add: days_before_year_step)
  moreover have "days_before_month ya m \<le> days_before_month yb m + (if is_leap ya then 1 else 0)"
    by (simp add: days_before_month_def)
  ultimately show ?thesis by (simp add: ymd2ord_def split: if_splits)
qed

lemma cell_date_eq:
  assumes "valid_date a" "0 \<le> p" "0 \<le> i" "i \<le> 6"
  shows "cell_date a p i =
           (if toordinal a + (7 * p + i) \<le> MAXORDINAL
            then Inr (fromordinal (toordinal a + (7 * p + i))) else Inl OverflowError)"
  using valid_date_ordinal[OF assms(1)] assms(2-4)
  by (auto simp add: cell_date_def timedelta_def date_add_def Let_def toordinal_fromordinal
      MAXORDINAL_def algebra_simps)

lemma cell_date_ordinal:
  assumes "cell_date a p i = Inr d"
  shows "toordinal d = toordinal a + (7 * p + i)"
  using assms
  by (auto simp add: cell_date_def timedelta_def date_add_def Let_def toordinal_fromordinal
      split: if_splits)

lemma january_valid: "valid_date (first_monday january_2026)"
  by code_simp

lemma january_february: "fromordinal (toordinal (first_monday january_2026) + (7 * 4 + 5))
    = \<lparr>year = 2026, month = 2, day = 7\<rparr>"
  by code_simp

lemma january_february_in_range:
  "toordinal (first_monday january_2026) + (7 * 4 + 5) \<le> MAXORDINAL"
  by code_simp

lemma january_thursday: 
  "cell_date (first_monday january_2026) 1 3 = Inr \<lparr>year = 2026, month = 1, day = 15\<rparr>"
  by code_simp

lemma january_monday: "weekday (first_monday january_2026) = 0"
  by code_simp

lemma run_result_sorted: "sorted_wrt entry_before (zip_f (run_result c page_count))"
  by (simp add: run_result_def concat_pages_sorted)

lemma member_cell:
  assumes ok: "list_all (page_ok c) [0..page_count - 1]"
    and e: "e \<in> set (zip_f (run_result c page_count))"
  shows "0 \<le> e_page e \<and> e_page e < page_count \<and> 0 \<le> e_col e \<and> e_col e \<le> 6
         \<and> cell_date (first_monday c) (e_page e) (e_col e) = Inr (e_date e)
         \<and> month (e_date e) = target_month c"
proof -
  from e obtain p i where pi: "0 \<le> p" "p < page_count" "0 \<le> i" "i \<le> 6"
    and sel: "selected c (page_monday c p) i"
    and e: "e = column_entry c p (page_monday c p) (int_truediv (x1 c - x0 c) 7) i"
    using in_run_resultD by blast
  have pok: "page_ok c p" using ok pi(1,2) by (rule page_ok_mem)
  note cd = cell_date_page_ok[OF pok pi(3,4)]
  from sel have "month (fromordinal (toordinal (page_monday c p) + i)) = target_month c"
    by (simp add: selected_def cd(2))
  then show ?thesis using pi by (simp add: e cd)
qed

lemma digits_length: "length (digits n) = 1 \<longleftrightarrow> n < 10"
proof (cases "n < 10")
  case True
  then show ?thesis by (subst digits.simps) simp
next
  case False
  have "digits (n div 10) \<noteq> []" by (subst digits.simps) simp
  with False show ?thesis by (subst digits.simps) simp
qed

lemma digit_char_inj:
  assumes "a < 10" "b < 10" "char_of (48 + a) = (char_of (48 + b) :: char)"
  shows "a = (b::nat)"
proof -
  from assms(3) have "of_char (char_of (48 + a) :: char) = (of_char (char_of (48 + b) :: char) :: nat)"
    by simp
  then have "(48 + a) mod 256 = (48 + b) mod 256" by (simp only: of_char_of)
  with assms(1,2) show ?thesis by simp
qed

lemma digits_inj: "digits m = digits n \<Longrightarrow> m = n"
proof (induction m arbitrary: n rule: digits.induct)
  case (1 m)
  show ?case
  proof (cases "m < 10")
    case True
    with "1.prems" have "length (digits n) = 1" by (metis digits_length)
    then have n: "n < 10" using digits_length[of n] by blast
    from "1.prems" True n have "char_of (48 + m) = (char_of (48 + n) :: char)"
      by (subst (asm) digits.simps, subst (asm) (2) digits.simps) simp
    from digit_char_inj[OF True n this] show ?thesis .
  next
    case False
    with "1.prems" have "length (digits n) \<noteq> 1" by (metis digits_length)
    then have n: "\<not> n < 10" using digits_length[of n] by blast
    have em: "digits m = digits (m div 10) @ [char_of (48 + m mod 10)]"
      using False by (subst digits.simps) simp
    have en: "digits n = digits (n div 10) @ [char_of (48 + n mod 10)]"
      using n by (subst digits.simps) simp
    from "1.prems" em en have d: "digits (m div 10) = digits (n div 10)"
      and c: "char_of (48 + m mod 10) = (char_of (48 + n mod 10) :: char)" by simp_all
    from "1.IH"[OF False d] have "m div 10 = n div 10" .
    moreover from digit_char_inj[OF _ _ c] have "m mod 10 = n mod 10" by simp
    ultimately show ?thesis by (metis div_mult_mod_eq)
  qed
qed

lemma py_str_inj: "0 \<le> a \<Longrightarrow> 0 \<le> b \<Longrightarrow> py_str a = py_str b \<Longrightarrow> a = b"
  using digits_inj[of "nat a" "nat b"] by (simp add: py_str_def)

lemma fromordinal_fields:
  "1 \<le> month (fromordinal n)" "month (fromordinal n) \<le> 12" "1 \<le> day (fromordinal n)"
proof -
  obtain y m d where e: "ord2ymd n = (y, m, d)" by (cases "ord2ymd n")
  from ord2ymd_correct[OF e]
  show "1 \<le> month (fromordinal n)" "month (fromordinal n) \<le> 12" "1 \<le> day (fromordinal n)"
    by (simp_all add: fromordinal_def e)
qed

lemma cell_date_fromordinal:
  assumes "cell_date a p i = Inr d"
  shows "d = fromordinal (toordinal a + (7 * p + i))"
  using assms
  by (auto simp add: cell_date_def timedelta_def date_add_def Let_def toordinal_fromordinal
      algebra_simps split: if_splits)

lemma same_day_apart:
  assumes "month da = month db" "day da = day db" "1 \<le> month da" "month da \<le> 12"
    and "toordinal da < toordinal db"
  shows "toordinal da + 365 \<le> toordinal db"
proof -
  have "year da < year db"
  proof (rule ccontr)
    assume "\<not> year da < year db"
    then consider "year da = year db" | "year db < year da" by linarith
    then show False
    proof cases
      case 1
      with assms show False by (simp add: toordinal_def)
    next
      case 2
      from ymd2ord_year_gap[OF 2, of "month da" "day da"] assms show False
        by (simp add: toordinal_def)
    qed
  qed
  from ymd2ord_year_gap[OF this assms(3,4), of "day da"] assms(1,2)
  show ?thesis by (simp add: toordinal_def)
qed

lemma member_name: 
  "e \<in> set (zip_f (run_result c page_count)) \<Longrightarrow> e_name e = py_str (day (e_date e)) @ ''.png''"
  by (auto dest!: in_run_resultD)

lemma sorted_wrt_neq_distinct: "sorted_wrt (\<noteq>) xs \<Longrightarrow> distinct xs"
  by (induction xs) auto

lemma year_pages_ok: "list_all (page_ok january_2026) [0..53 - 1]"
  by code_simp

lemma year_first_selected: "selected january_2026 (page_monday january_2026 0) 0"
  by code_simp

lemma year_last_selected: "selected january_2026 (page_monday january_2026 52) 1"
  by code_simp

lemma year_first_name: "py_str (day (projr (date_add (page_monday january_2026 0) 0))) = ''5''"
  by code_simp

lemma year_last_name: "py_str (day (projr (date_add (page_monday january_2026 52) 1))) = ''5''"
  by code_simp

lemma year_last_date: "projr (date_add (page_monday january_2026 52) 1) = \<lparr>year = 2027, month = 1, day = 5\<rparr>"
  by code_simp






lemma columns_upto: "[0..6] = [0, 1, 2, 3, 4, 5, 6 :: int]"
  by code_simp

lemma january_band: "x0 january_2026 < x1 january_2026" "\<bar>x0 january_2026\<bar> < 2 ^ 53"
  by (simp_all add: january_2026_def)

lemma january_edges:
  "d_right january_2026 5 = 6419891321494381 / 4398046511104
   \<and> d_left january_2026 6 = 6419891321494382 / 4398046511104"
  by code_simp

section \<open>The claims\<close>

text \<open>
  Claim C8. The members of a run are written in order: the page index never decreases,
  and among the members of one page the column index increases strictly. The order
  \<open>entry_before\<close> is the strict lexicographic order on (page, column).
\<close>

theorem plan_order:
  "run_split lib c page_count = Inr s \<Longrightarrow> sorted_wrt entry_before (zip_f s)"
proof -
  assume "run_split lib c page_count = Inr s"
  then have "s = run_result c page_count" by (simp add: run_split_InrD)
  then show ?thesis by (simp add: run_result_sorted)
qed

text \<open>The five pages of January 2026, from Monday 5 January.\<close>

theorem plan_order_witness:
  "run_split pillow january_2026 5 = Inr (run_result january_2026 5)
   \<and> sorted_wrt entry_before (zip_f (run_result january_2026 5))"
  using plan_order[OF january_run] january_run by simp

text \<open>
  Claim C4. Every member of a run was cropped with the box of its column \<open>i\<close>, which
  lies in 0..6: the left edge is \<open>x0 + i * step\<close> with \<open>step = (x1 - x0) / 7\<close>, the right
  edge is \<open>left + step\<close> for \<open>i < 6\<close> and the band's own \<open>x1\<close> for \<open>i = 6\<close>, and the
  upper and lower edges are the band's \<open>y0\<close> and \<open>y1\<close>. The arithmetic is the
  program's float arithmetic. Nothing is required of the band.
\<close>

theorem column_box:
  assumes "run_split lib c page_count = Inr s" and "e \<in> set (zip_f s)"
  shows "0 \<le> e_col e \<and> e_col e \<le> 6 \<and>
         e_box e =
           (let step = int_truediv (x1 c - x0 c) 7;
                left = float_add (float_of_int (x0 c)) (float_mul (float_of_int (e_col e)) step)
            in (left, of_int (y0 c),
                if e_col e < 6 then float_add left step else of_int (x1 c),
                of_int (y1 c)))"
proof -
  from assms(1) have "s = run_result c page_count" by (simp add: run_split_InrD)
  with assms(2) obtain p i where "0 \<le> i" "i \<le> 6"
    and "e = column_entry c p (page_monday c p) (int_truediv (x1 c - x0 c) 7) i"
    using in_run_resultD by blast
  then show ?thesis by (simp add: column_entry_def Let_def)
qed

text \<open>The Sunday column of the first page of January 2026 ends at \<open>x1 = 1685\<close>.\<close>

theorem column_box_witness:
  "run_split pillow january_2026 5 = Inr (run_result january_2026 5)
   \<and> column_entry january_2026 0 (page_monday january_2026 0)
        (int_truediv (x1 january_2026 - x0 january_2026) 7) 6
      \<in> set (zip_f (run_result january_2026 5))
   \<and> (case e_box (column_entry january_2026 0 (page_monday january_2026 0)
        (int_truediv (x1 january_2026 - x0 january_2026) 7) 6) of
        (l, u, r, b) \<Rightarrow> u = 145 \<and> r = 1685 \<and> b = 1170)"
  using column_box[OF january_run january_sunday] january_run january_sunday
  by (simp add: january_2026_def Let_def)



text \<open>
  Claim C9. When every cell of the document has a date and none of the dates is in the
  target month, the run completes without error, whatever the imaging library would do
  (it is never called), the archive has no member, the counter is 0, and the page shows
  the warning rather than the download.
\<close>

theorem empty_result:
  assumes "\<forall>p i. 0 \<le> p \<and> p < page_count \<and> 0 \<le> i \<and> i \<le> 6 \<longrightarrow>
             (\<exists>d. cell_date (first_monday c) p i = Inr d \<and> month d \<noteq> target_month c)"
  shows "\<exists>s. run_split lib c page_count = Inr s \<and> zip_f s = [] \<and> saved_count s = 0
             \<and> report c s = Warning"
proof -
  have pok: "page_ok c p" if "0 \<le> p" "p < page_count" for p
    using assms that by (intro cells_page_ok) blast
  then have ok: "list_all (page_ok c) [0..page_count - 1]" by (simp add: list_all_iff)
  have "page_entries c p = []" if p: "p \<in> set [0..page_count - 1]" for p
  proof -
    from p have p': "0 \<le> p" "p < page_count" by simp_all
    have "\<not> selected c (page_monday c p) i" if "i \<in> set [0..6]" for i
    proof -
      from that have i: "0 \<le> i" "i \<le> 6" by simp_all
      from assms p' i obtain d where "cell_date (first_monday c) p i = Inr d"
        "month d \<noteq> target_month c" by blast
      then show ?thesis
        unfolding selected_cell_date[OF pok[OF p'] i] by simp
    qed
    then show ?thesis by (simp add: page_entries_def filter_empty_conv)
  qed
  then have z: "zip_f (run_result c page_count) = []" by (simp add: run_result_def)
  then have n: "saved_count (run_result c page_count) = 0" by (simp add: run_count)
  from run_split_ok[OF ok accepted_empty[OF z]] z n show ?thesis
    by (simp add: report_def)
qed

text \<open>One page from Monday 5 January 2026, with March as the target month.\<close>

theorem empty_result_witness:
  "run_split pillow march_2026 1 = Inr (run_result march_2026 1)
   \<and> zip_f (run_result march_2026 1) = [] \<and> saved_count (run_result march_2026 1) = 0
   \<and> report march_2026 (run_result march_2026 1) = Warning"
proof -
  have "\<forall>p i. 0 \<le> p \<and> p < 1 \<and> 0 \<le> i \<and> i \<le> 6 \<longrightarrow>
          (\<exists>d. cell_date (first_monday march_2026) p i = Inr d \<and> month d \<noteq> target_month march_2026)"
  proof (intro allI impI)
    fix p i :: int
    assume "0 \<le> p \<and> p < 1 \<and> 0 \<le> i \<and> i \<le> 6"
    then have p: "p = 0" and i: "i \<in> set [0..6]" by simp_all
    from march_cells i
    have "case cell_date (first_monday march_2026) 0 i of
            Inl _ \<Rightarrow> False | Inr d \<Rightarrow> month d \<noteq> target_month march_2026"
      unfolding list_all_iff by blast
    then show "\<exists>d. cell_date (first_monday march_2026) p i = Inr d \<and> month d \<noteq> target_month march_2026"
      unfolding p by (cases "cell_date (first_monday march_2026) 0 i") simp_all
  qed
  from empty_result[OF this] obtain s where s: "run_split pillow march_2026 1 = Inr s"
    "zip_f s = []" "saved_count s = 0" "report march_2026 s = Warning" by blast
  from run_split_InrD[OF s(1)] s show ?thesis by simp
qed

text \<open>
  Claim C5, as the program has it. For a valid anchor date, a page index \<open>p \<ge> 0\<close> and a
  column \<open>i\<close> in 0..6, the two additions of the loops give the date whose ordinal is the
  anchor's plus \<open>7 * p + i\<close>, a valid date, as long as that ordinal does not pass
  \<open>MAXORDINAL\<close> (31 December 9999); beyond it they raise \<^verbatim>\<open>OverflowError\<close>. The result is
  a function of the three inputs.
\<close>

theorem cell_date_sum:
  assumes "valid_date a" "0 \<le> p" "0 \<le> i" "i \<le> 6"
  shows "cell_date a p i =
           (if toordinal a + (7 * p + i) \<le> MAXORDINAL
            then Inr (fromordinal (toordinal a + (7 * p + i))) else Inl OverflowError)
         \<and> toordinal (fromordinal (toordinal a + (7 * p + i))) = toordinal a + (7 * p + i)
         \<and> (toordinal a + (7 * p + i) \<le> MAXORDINAL
              \<longrightarrow> valid_date (fromordinal (toordinal a + (7 * p + i))))"
proof -
  have "1 \<le> toordinal a + (7 * p + i)"
    using valid_date_ordinal(1)[OF assms(1)] assms(2,3) by simp
  then show ?thesis
    using cell_date_eq[OF assms] by (simp add: toordinal_fromordinal valid_date_fromordinal)
qed

text \<open>Page 4, column 5 from Monday 5 January 2026 is Saturday 7 February 2026.\<close>

theorem cell_date_sum_witness:
  "valid_date (first_monday january_2026)
   \<and> cell_date (first_monday january_2026) 4 5 = Inr \<lparr>year = 2026, month = 2, day = 7\<rparr>
   \<and> valid_date \<lparr>year = 2026, month = 2, day = 7\<rparr>"
  using cell_date_sum[OF january_valid, of 4 5] january_valid january_february
    january_february_in_range
  by simp

text \<open>
  Claim C5 as stated fails: the date arithmetic is bounded. From the last date, 31
  December 9999, the cell of page 0 and column 1 has no date.
\<close>

theorem date_max_counterexample:
  "valid_date date_max \<and> cell_date date_max 0 1 = Inl OverflowError"
  by code_simp

text \<open>
  Claim C3, as the program has it. The weekday of a cell's date is the anchor's weekday
  plus the column, modulo 7; it is the column itself when the anchor is a Monday and the
  column lies in 0..6. The program does not check that the anchor is a Monday.
\<close>

theorem weekday_of_cell:
  assumes "cell_date a p i = Inr d"
  shows "weekday d = (weekday a + i) mod 7
         \<and> (weekday a = 0 \<and> 0 \<le> i \<and> i \<le> 6 \<longrightarrow> weekday d = i)"
proof -
  have "weekday d = (toordinal a + (7 * p + i) + 6) mod 7"
    by (simp add: weekday_def cell_date_ordinal[OF assms])
  also have "toordinal a + (7 * p + i) + 6 = (toordinal a + 6 + i) + 7 * p" by simp
  also have "\<dots> mod 7 = (toordinal a + 6 + i) mod 7" by (rule mod_mult_self2)
  also have "\<dots> = (weekday a + i) mod 7"
    unfolding weekday_def by (simp add: mod_add_left_eq)
  finally have w: "weekday d = (weekday a + i) mod 7" .
  then show ?thesis by simp
qed

text \<open>Page 1, column 3 from Monday 5 January 2026 is Thursday 15 January 2026.\<close>

theorem weekday_of_cell_witness:
  "cell_date (first_monday january_2026) 1 3 = Inr \<lparr>year = 2026, month = 1, day = 15\<rparr>
   \<and> weekday (first_monday january_2026) = 0
   \<and> weekday \<lparr>year = 2026, month = 1, day = 15\<rparr> = 3"
  using weekday_of_cell[OF january_thursday] january_thursday january_monday by simp

text \<open>
  Claim C3 as stated fails at the anchor the date input starts with, 1 January 2026, a
  Thursday: the cell of page 0 and column 0 has weekday 3.
\<close>

theorem default_anchor_counterexample:
  "valid_date default_first_monday
   \<and> cell_date default_first_monday 0 0 = Inr default_first_monday
   \<and> weekday default_first_monday = 3"
  by code_simp

text \<open>
  Claim C2, as the program has it. A member is named by the day of the month alone. In a
  run over at most 52 pages the dates span less than 365 days, two of them in the same
  month have different days, and the member names are pairwise distinct.
\<close>

theorem names_distinct:
  assumes "page_count \<le> 52" and "run_split lib c page_count = Inr s"
  shows "distinct (map e_name (zip_f s))"
proof -
  from assms(2) have s: "s = run_result c page_count"
    and ok: "list_all (page_ok c) [0..page_count - 1]" by (simp_all add: run_split_InrD)
  note mf = member_cell[OF ok, folded s]
  have neq: "e_name ea \<noteq> e_name eb"
    if "ea \<in> set (zip_f s)" "eb \<in> set (zip_f s)" "entry_before ea eb" for ea eb
  proof
    assume eq: "e_name ea = e_name eb"
    from mf[OF that(1)] have a: "0 \<le> e_page ea" "e_page ea < page_count"
      "0 \<le> e_col ea" "e_col ea \<le> 6"
      "cell_date (first_monday c) (e_page ea) (e_col ea) = Inr (e_date ea)"
      "month (e_date ea) = target_month c" by simp_all
    from mf[OF that(2)] have b: "0 \<le> e_page eb" "e_page eb < page_count"
      "0 \<le> e_col eb" "e_col eb \<le> 6"
      "cell_date (first_monday c) (e_page eb) (e_col eb) = Inr (e_date eb)"
      "month (e_date eb) = target_month c" by simp_all
    note oa = cell_date_ordinal[OF a(5)] and ob = cell_date_ordinal[OF b(5)]
    note fa = cell_date_fromordinal[OF a(5)] and fb = cell_date_fromordinal[OF b(5)]
    have lt: "toordinal (e_date ea) < toordinal (e_date eb)"
      using that(3) a b unfolding oa ob entry_before_def by linarith
    have near: "toordinal (e_date eb) < toordinal (e_date ea) + 365"
      using a b assms(1) unfolding oa ob by linarith
    have da: "1 \<le> day (e_date ea)" "1 \<le> month (e_date ea)" "month (e_date ea) \<le> 12"
      by (subst fa, rule fromordinal_fields)+
    have db: "1 \<le> day (e_date eb)" by (subst fb, rule fromordinal_fields)
    from eq that(1,2) have "py_str (day (e_date ea)) = py_str (day (e_date eb))"
      unfolding s by (simp add: member_name)
    then have "day (e_date ea) = day (e_date eb)"
      using da(1) db by (intro py_str_inj) simp_all
    from same_day_apart[OF _ this da(2,3) lt] a(6) b(6) near show False by simp
  qed
  have "sorted_wrt entry_before (zip_f s)" unfolding s by (rule run_result_sorted)
  then have "sorted_wrt (\<lambda>ea eb. e_name ea \<noteq> e_name eb) (zip_f s)"
    by (rule sorted_wrt_mono_rel[rotated]) (rule neq)
  then have "sorted_wrt (\<noteq>) (map e_name (zip_f s))" by (simp add: sorted_wrt_map)
  then show ?thesis by (rule sorted_wrt_neq_distinct)
qed

text \<open>The five pages of January 2026 again.\<close>

theorem names_distinct_witness:
  "(5::int) \<le> 52 \<and> run_split pillow january_2026 5 = Inr (run_result january_2026 5)
   \<and> distinct (map e_name (zip_f (run_result january_2026 5)))"
  using names_distinct[OF _ january_run] january_run by simp

text \<open>
  Claim C2 as stated fails from 53 pages on: from Monday 5 January 2026 with January as
  the target month, page 0 column 0 is 5 January 2026 and page 52 column 1 is 5 January
  2027; both members are named \<^verbatim>\<open>5.png\<close>.
\<close>

theorem year_of_pages_counterexample:
  "run_split pillow january_2026 53 = Inr (run_result january_2026 53)
   \<and> \<not> distinct (map e_name (zip_f (run_result january_2026 53)))"
proof -
  let ?w = "int_truediv (x1 january_2026 - x0 january_2026) 7"
  let ?a = "column_entry january_2026 0 (page_monday january_2026 0) ?w 0"
  let ?b = "column_entry january_2026 52 (page_monday january_2026 52) ?w 1"
  let ?xs = "zip_f (run_result january_2026 53)"
  have a: "?a \<in> set ?xs"
    by (rule in_run_result[OF _ _ in_page_entries[OF _ _ year_first_selected]]) simp_all
  have b: "?b \<in> set ?xs"
    by (rule in_run_result[OF _ _ in_page_entries[OF _ _ year_last_selected]]) simp_all
  have ne: "?a \<noteq> ?b"
  proof
    assume "?a = ?b"
    then have "e_page ?a = e_page ?b" by (rule arg_cong)
    then show False by simp
  qed
  have nm: "e_name ?a = e_name ?b" by (simp add: year_first_name year_last_name)
  have "\<not> inj_on e_name (set ?xs)"
    using a b ne nm unfolding inj_on_def by blast
  then have "\<not> distinct (map e_name ?xs)" by (simp add: distinct_map)
  with run_split_ok[OF year_pages_ok band_accepted_run[OF january_band_accepted]]
  show ?thesis by simp
qed






text \<open>
  Claim C7, as the program has it. For a band with \<open>x0 < x1\<close> and \<open>x0\<close> in the range of
  the number inputs (below \<open>2 ^ 53\<close> in size), the first column starts at \<open>x0\<close>, the last
  column ends at \<open>x1\<close>, the right edge of a column and the left edge of the next differ
  by at most \<open>(\<bar>x0\<bar> + (x1 - x0)) / 2 ^ 50\<close>, and the seven widths add up to \<open>x1 - x0\<close>
  within six times that tolerance. The edges are floats: a column's right edge is
  \<open>left + step\<close> and the next left edge is \<open>x0 + (i + 1) * step\<close>, each rounded.
\<close>

theorem columns_tile_band:
  assumes "x0 c < x1 c" and "\<bar>x0 c\<bar> < 2 ^ 53"
  shows "d_left c 0 = of_int (x0 c) \<and> d_right c 6 = of_int (x1 c)
         \<and> (\<forall>i. 0 \<le> i \<and> i < 6 \<longrightarrow>
               \<bar>d_right c i - d_left c (i + 1)\<bar> \<le> band_scale c / 2 ^ 50)
         \<and> \<bar>sum_list (map (\<lambda>i. d_right c i - d_left c i) [0..6]) - of_int (x1 c - x0 c)\<bar>
               \<le> 6 * band_scale c / 2 ^ 50"
proof -
  note adj = adjacent_edges[OF assms]
  have l0: "d_left c 0 = of_int (x0 c)" by (rule first_left_edge[OF assms(2)])
  have r6: "d_right c 6 = of_int (x1 c)" by (simp add: d_right_def)
  have a0: "\<bar>d_right c 0 - d_left c 1\<bar> \<le> band_scale c / 2 ^ 50" using adj[of 0] by simp
  have a1: "\<bar>d_right c 1 - d_left c 2\<bar> \<le> band_scale c / 2 ^ 50" using adj[of 1] by simp
  have a2: "\<bar>d_right c 2 - d_left c 3\<bar> \<le> band_scale c / 2 ^ 50" using adj[of 2] by simp
  have a3: "\<bar>d_right c 3 - d_left c 4\<bar> \<le> band_scale c / 2 ^ 50" using adj[of 3] by simp
  have a4: "\<bar>d_right c 4 - d_left c 5\<bar> \<le> band_scale c / 2 ^ 50" using adj[of 4] by simp
  have a5: "\<bar>d_right c 5 - d_left c 6\<bar> \<le> band_scale c / 2 ^ 50" using adj[of 5] by simp
  have tele: "sum_list (map (\<lambda>i. d_right c i - d_left c i) [0..6]) - of_int (x1 c - x0 c)
      = (d_right c 0 - d_left c 1) + (d_right c 1 - d_left c 2) + (d_right c 2 - d_left c 3)
        + (d_right c 3 - d_left c 4) + (d_right c 4 - d_left c 5) + (d_right c 5 - d_left c 6)"
    unfolding columns_upto by (simp add: l0 r6)
  have "\<bar>sum_list (map (\<lambda>i. d_right c i - d_left c i) [0..6]) - of_int (x1 c - x0 c)\<bar>
          \<le> 6 * (band_scale c / 2 ^ 50)"
    unfolding tele using a0 a1 a2 a3 a4 a5 by linarith
  then have total:
    "\<bar>sum_list (map (\<lambda>i. d_right c i - d_left c i) [0..6]) - of_int (x1 c - x0 c)\<bar>
          \<le> 6 * band_scale c / 2 ^ 50" by simp
  from l0 r6 adj total show ?thesis by blast
qed

text \<open>The default band: 108 to 1685.\<close>

theorem columns_tile_band_witness:
  "x0 january_2026 < x1 january_2026 \<and> \<bar>x0 january_2026\<bar> < 2 ^ 53
   \<and> d_left january_2026 0 = 108 \<and> d_right january_2026 6 = 1685
   \<and> \<bar>d_right january_2026 5 - d_left january_2026 (5 + 1)\<bar> \<le> 1685 / 2 ^ 50"
proof -
  have x: "x0 january_2026 = 108" "x1 january_2026 = 1685" by (simp_all add: january_2026_def)
  have k: "band_scale january_2026 = 1685" by (simp add: band_scale_def x)
  from columns_tile_band[OF january_band]
  have a: "d_left january_2026 0 = of_int (x0 january_2026)"
    and b: "d_right january_2026 6 = of_int (x1 january_2026)"
    and c: "\<forall>i. 0 \<le> i \<and> i < 6 \<longrightarrow>
             \<bar>d_right january_2026 i - d_left january_2026 (i + 1)\<bar>
               \<le> band_scale january_2026 / 2 ^ 50"
    by blast+
  have "\<bar>d_right january_2026 5 - d_left january_2026 (5 + 1)\<bar>
      \<le> band_scale january_2026 / 2 ^ 50" by (rule c[rule_format]) simp
  with a b january_band show ?thesis unfolding k x by simp
qed

text \<open>
  Claim C7 as stated fails for the default band: the right edge of column 5,
  \<open>fl (fl (108 + 5 * step) + step)\<close>, and the left edge of column 6, \<open>fl (108 + 6 * step)\<close>,
  are neighbouring floats (1459.7142857142856 and 1459.7142857142858), not the same one.
\<close>

theorem default_band_counterexample:
  "x0 january_2026 < x1 january_2026
   \<and> d_right january_2026 5 = 6419891321494381 / 4398046511104
   \<and> d_left january_2026 6 = 6419891321494382 / 4398046511104
   \<and> d_right january_2026 5 \<noteq> d_left january_2026 6"
  using january_edges by (simp add: january_2026_def)

end
